theory Spec2Isabelle
  imports Main "HOL-Library.Word"
begin

unbundle bit_operations_syntax

section \<open>Data model of osmem.c\<close>

text \<open>
  Addresses and sizes are the 64-bit unsigned values of the C program
  (\<^verbatim>\<open>size_t\<close> and pointers on the LP64 target); all arithmetic on them
  wraps around as it does in C. The null pointer is the address 0.
\<close>

type_synonym addr = "64 word"
type_synonym size_t = "64 word"
type_synonym byte = "8 word"

datatype status = STATUS_FREE | STATUS_ALLOC | STATUS_MAPPED

record block_meta =
  size :: size_t
  status :: status
  prev :: addr
  "next" :: addr

text \<open>
  Ways in which a call does not return to its caller: \<open>Die\<close> is the exit
  through the \<^verbatim>\<open>DIE\<close> macro after a failed system call, \<open>BadAccess\<close> is
  a read or write of a block header at an address that holds none (the
  null pointer, unmapped memory, memory never written as a header), and
  \<open>Hang\<close> is a list walk that never ends. \<open>Overlap\<close> is of another kind:
  the C program goes on, but with a header written across the fields of
  another header, a state that the headers of this model, kept whole and
  apart, cannot hold (see \<open>fragment\<close>). A call that ends in \<open>Overlap\<close> is a
  call about which the model says nothing.
\<close>

datatype fault = Die | BadAccess | Hang | Overlap

text \<open>
  The state: the three globals of osmem.c, the block headers found in
  memory (keyed by their address), the payload bytes, and the part of the
  operating system the allocator talks to: the program break \<open>brk\<close> with
  the highest value \<open>brk_limit\<close> it may take, and the address \<open>mmap_next\<close> at
  which the next anonymous mapping is placed.
\<close>

record heap =
  heap_start :: addr
  heap_end :: addr
  heap_pre :: addr
  blocks :: "addr \<Rightarrow> block_meta option"
  mem :: "addr \<Rightarrow> byte"
  brk :: addr
  brk_limit :: addr
  mmap_next :: addr

type_synonym 'a res = "fault + 'a \<times> heap"

definition bnd :: "'a res \<Rightarrow> ('a \<Rightarrow> heap \<Rightarrow> 'b res) \<Rightarrow> 'b res" where
  "bnd r f = (case r of Inl e \<Rightarrow> Inl e | Inr (x, s) \<Rightarrow> f x s)"

subsection \<open>Helper macros\<close>

definition ALIGNMENT :: size_t where
  "ALIGNMENT = 8"

definition ALIGN :: "size_t \<Rightarrow> size_t" where
  "ALIGN sz = (sz + (ALIGNMENT - 1)) AND NOT 7"

definition PAGE_SIZE :: size_t where
  "PAGE_SIZE = 4 * 1024"

definition MMAP_THRESHOLD :: size_t where
  "MMAP_THRESHOLD = 128 * 1024"

text \<open>
  Modelled from the spec: block_meta.h, which declares
  \<^verbatim>\<open>struct block_meta\<close>, is not among the sources. The header has the four
  fields \<open>size\<close>, \<open>status\<close>, \<open>prev\<close>, \<open>next\<close> of the specification's data
  model; on the LP64 target (8-byte \<^verbatim>\<open>size_t\<close> and pointers, a 4-byte
  status padded to 8) they occupy 32 bytes, which is what
  \<^verbatim>\<open>sizeof(struct block_meta)\<close> stands for below.
\<close>

definition META_SIZE :: size_t where
  "META_SIZE = 32"

subsection \<open>Header accesses\<close>

definition rd :: "addr \<Rightarrow> heap \<Rightarrow> block_meta res" where
  "rd a s = (case blocks s a of None \<Rightarrow> Inl BadAccess | Some b \<Rightarrow> Inr (b, s))"

text \<open>A write to one field of the header stored at \<open>a\<close>.\<close>

definition upd :: "addr \<Rightarrow> (block_meta \<Rightarrow> block_meta) \<Rightarrow> heap \<Rightarrow> unit res" where
  "upd a f s = (case blocks s a of None \<Rightarrow> Inl BadAccess
     | Some b \<Rightarrow> Inr ((), s\<lparr>blocks := (blocks s)(a \<mapsto> f b)\<rparr>))"

text \<open>A header written in full at an address of granted memory.\<close>

definition put :: "addr \<Rightarrow> block_meta \<Rightarrow> heap \<Rightarrow> heap" where
  "put a b s = s\<lparr>blocks := (blocks s)(a \<mapsto> b)\<rparr>"

subsection \<open>The operating system\<close>

text \<open>
  \<^verbatim>\<open>sbrk(inc)\<close> returns the old break and moves it up by \<open>inc\<close>; it fails
  when the break would pass \<open>brk_limit\<close>. The memory it grants has never
  been used (the allocator never lowers the break), so it reads as zero.
\<close>

definition sbrk :: "size_t \<Rightarrow> heap \<Rightarrow> addr res" where
  "sbrk inc s =
     (if unat (brk s) + unat inc \<le> unat (brk_limit s)
      then Inr (brk s, s\<lparr>brk := brk s + inc\<rparr>)
      else Inl Die)"

definition page_round :: "size_t \<Rightarrow> nat" where
  "page_round req = ((unat req + 4095) div 4096) * 4096"

text \<open>
  \<^verbatim>\<open>mmap(NULL, req, ...)\<close> grants \<open>req\<close> bytes, rounded up to whole pages,
  of zero-filled memory at \<open>mmap_next\<close>, an address that no earlier
  mapping has used; it fails for a length of zero and when the address
  space is exhausted.
\<close>

definition mmap :: "size_t \<Rightarrow> heap \<Rightarrow> addr res" where
  "mmap req s =
     (if req = 0 \<or> unat (mmap_next s) + page_round req \<ge> 2 ^ 64 then Inl Die
      else Inr (mmap_next s,
        s\<lparr>mmap_next := mmap_next s + word_of_nat (page_round req),
          mem := (\<lambda>a. if mmap_next s \<le> a \<and> unat a < unat (mmap_next s) + page_round req
                       then 0 else mem s a)\<rparr>))"

text \<open>\<^verbatim>\<open>munmap(a, len)\<close> takes the memory back: the header at \<open>a\<close> is gone.\<close>

definition munmap :: "addr \<Rightarrow> size_t \<Rightarrow> heap \<Rightarrow> unit res" where
  "munmap a len s = Inr ((), s\<lparr>blocks := (blocks s)(a := None)\<rparr>)"

section \<open>The allocator\<close>

subsection \<open>mmap_alloc\<close>

definition mmap_alloc :: "size_t \<Rightarrow> heap \<Rightarrow> addr res" where
  "mmap_alloc req s =
     bnd (mmap req s) (\<lambda>new_block s1.
       Inr (new_block,
            put new_block \<lparr>size = req - ALIGN META_SIZE, status = STATUS_MAPPED,
                           prev = heap_end s1, next = 0\<rparr> s1))"

subsection \<open>fragment\<close>

text \<open>
  The new header is written at \<open>node + req\<close>, inside the memory of \<open>node\<close>;
  the writes follow the order of the C statements.

  \<open>overlaps req\<close>: the header at \<open>node + req\<close> and the header at \<open>node\<close> share
  bytes without being the same header, that is \<open>req\<close> is not 0 and
  \<open>node + req\<close> lies less than \<^verbatim>\<open>sizeof(struct block_meta)\<close> bytes above or below
  \<open>node\<close>. The C statements then write the fields of the new header over
  fields of \<open>node\<close> itself: with \<open>req = 24\<close>, \<^verbatim>\<open>fragmented->size\<close> is the same
  word as \<^verbatim>\<open>node->next\<close>, and \<^verbatim>\<open>node->next\<close> is left holding
  \<open>remaining_size - 32\<close>. This happens only when the requirement has wrapped
  around (\<^verbatim>\<open>os_malloc(size)\<close> with \<open>size\<close> within 31 bytes of \<open>2\<^sup>6\<^sup>4\<close>, where
  the requirement is 8, 16 or 24). The model ends such a call in \<open>Overlap\<close>.
  With \<open>req = 0\<close> the two headers are one and the same, and the statements
  are followed as they are.
\<close>

definition overlaps :: "size_t \<Rightarrow> bool" where
  "overlaps req = (req \<noteq> 0 \<and> (req < META_SIZE \<or> - req < META_SIZE))"

definition fragment :: "addr \<Rightarrow> size_t \<Rightarrow> size_t \<Rightarrow> heap \<Rightarrow> unit res" where
  "fragment node remaining_size req s =
     (if overlaps req then Inl Overlap
      else
     bnd (rd node s) (\<lambda>n _.
       let fragmented = node + req;
           s1 = put fragmented \<lparr>size = 0, status = STATUS_FREE, prev = node, next = next n\<rparr> s
       in bnd (upd node (\<lambda>b. b\<lparr>next := fragmented\<rparr>) s1) (\<lambda>_ s2.
          bnd (rd fragmented s2) (\<lambda>f _.
          bnd (if next f \<noteq> 0 then upd (next f) (\<lambda>b. b\<lparr>prev := fragmented\<rparr>) s2
               else Inr ((), s2)) (\<lambda>_ s3.
          bnd (upd fragmented (\<lambda>b. b\<lparr>size := remaining_size - ALIGN META_SIZE,
                                      status := STATUS_FREE\<rparr>) s3) (\<lambda>_ s4.
          bnd (upd node (\<lambda>b. b\<lparr>size := req - ALIGN META_SIZE\<rparr>) s4) (\<lambda>_ s5.
          Inr ((), if node = heap_end s5 then s5\<lparr>heap_end := fragmented\<rparr> else s5))))))))"

subsection \<open>find_fit\<close>

text \<open>
  The \<^verbatim>\<open>for\<close> loop of \<^verbatim>\<open>find_fit\<close>, from \<open>node\<close> on, with the loop's two
  variables \<open>best_node\<close> and \<open>minimal_remaining\<close>. It only reads the heap.
  \<open>None\<close> is a walk that never ends.
\<close>

partial_function (option) find_fit_loop ::
  "heap \<Rightarrow> size_t \<Rightarrow> addr \<Rightarrow> addr \<Rightarrow> size_t \<Rightarrow> (fault + addr \<times> size_t) option" where
  "find_fit_loop s requested node best_node minimal_remaining =
     (if node = 0 then Some (Inr (best_node, minimal_remaining))
      else case blocks s node of
        None \<Rightarrow> Some (Inl BadAccess)
      | Some b \<Rightarrow>
          if status b = STATUS_FREE \<and> META_SIZE + size b \<ge> requested then
            let remaining_size = META_SIZE + size b - requested in
            if remaining_size < minimal_remaining then
              if remaining_size = 0 then Some (Inr (node, remaining_size))
              else find_fit_loop s requested (next b) node remaining_size
            else find_fit_loop s requested (next b) best_node minimal_remaining
          else find_fit_loop s requested (next b) best_node minimal_remaining)"

declare find_fit_loop.simps [code]

definition find_fit :: "size_t \<Rightarrow> heap \<Rightarrow> addr res" where
  "find_fit requested s =
     (case find_fit_loop s requested (heap_start s) 0 (- 1) of
        None \<Rightarrow> Inl Hang
      | Some (Inl e) \<Rightarrow> Inl e
      | Some (Inr (best_node, minimal_remaining)) \<Rightarrow>
          if best_node \<noteq> 0 then
            bnd (if minimal_remaining \<ge> ALIGN META_SIZE + 1
                 then fragment best_node minimal_remaining requested s
                 else Inr ((), s)) (\<lambda>_ s1. Inr (best_node, s1))
          else Inr (0, s))"

subsection \<open>initialise_heap\<close>

text \<open>
  In the \<^verbatim>\<open>sbrk\<close> branch the fields \<open>status\<close> and \<open>size\<close> are written, and
  \<open>prev\<close> and \<open>next\<close> only when the list is empty; when it is not, \<open>prev\<close> is
  written and \<open>next\<close> keeps the zero of the fresh memory.
\<close>

definition initialise_heap :: "size_t \<Rightarrow> heap \<Rightarrow> addr res" where
  "initialise_heap requested s =
     (if requested \<le> MMAP_THRESHOLD \<and> heap_pre s = 0 then
        bnd (sbrk MMAP_THRESHOLD s) (\<lambda>new_block s1.
          let remaining_size = MMAP_THRESHOLD - requested;
              s2 = put new_block \<lparr>size = requested - ALIGN META_SIZE, status = STATUS_ALLOC,
                                   prev = 0, next = 0\<rparr>
                     (s1\<lparr>heap_pre := new_block + META_SIZE\<rparr>)
          in bnd (if heap_start s2 = 0
                  then Inr ((), s2\<lparr>heap_start := new_block, heap_end := new_block\<rparr>)
                  else bnd (upd new_block (\<lambda>b. b\<lparr>prev := heap_end s2\<rparr>) s2) (\<lambda>_ s3.
                       bnd (upd (heap_end s3) (\<lambda>b. b\<lparr>next := new_block\<rparr>) s3) (\<lambda>_ s4.
                       Inr ((), s4\<lparr>heap_end := new_block\<rparr>)))) (\<lambda>_ s5.
             bnd (if remaining_size \<ge> ALIGN META_SIZE + 1
                  then fragment new_block remaining_size requested s5
                  else Inr ((), s5)) (\<lambda>_ s6. Inr (new_block, s6))))
      else
        bnd (mmap_alloc requested s) (\<lambda>new_block s1.
          if heap_start s1 = 0 then
            bnd (upd new_block (\<lambda>b. b\<lparr>next := 0, prev := 0\<rparr>)
                   (s1\<lparr>heap_start := new_block, heap_end := new_block\<rparr>)) (\<lambda>_ s2.
            Inr (new_block, s2))
          else
            bnd (upd (heap_end s1) (\<lambda>b. b\<lparr>next := new_block\<rparr>) s1) (\<lambda>_ s2.
            let s3 = s2\<lparr>heap_end := new_block\<rparr> in
            bnd (upd new_block (\<lambda>b. b\<lparr>prev := heap_end s3\<rparr>) s3) (\<lambda>_ s4.
            Inr (new_block, s4)))))"

subsection \<open>os_malloc\<close>

text \<open>
  The walk from \<open>heap_end\<close> back over the blocks that are \<open>STATUS_MAPPED\<close>
  (the \<^verbatim>\<open>while\<close> loop of \<^verbatim>\<open>os_malloc\<close> and of \<^verbatim>\<open>os_realloc\<close>).
\<close>

partial_function (option) last_heap_block :: "heap \<Rightarrow> addr \<Rightarrow> (fault + addr) option" where
  "last_heap_block s new_block =
     (if new_block = 0 then Some (Inr 0)
      else case blocks s new_block of
        None \<Rightarrow> Some (Inl BadAccess)
      | Some b \<Rightarrow>
          if status b = STATUS_MAPPED then last_heap_block s (prev b)
          else Some (Inr new_block))"

declare last_heap_block.simps [code]

definition get_last :: "heap \<Rightarrow> addr res" where
  "get_last s =
     (case last_heap_block s (heap_end s) of
        None \<Rightarrow> Inl Hang
      | Some (Inl e) \<Rightarrow> Inl e
      | Some (Inr a) \<Rightarrow> Inr (a, s))"

text \<open>
  The result is the pointer handed to the caller, \<^verbatim>\<open>new_block + 1\<close>, that is
  the header's address plus \<^verbatim>\<open>sizeof(struct block_meta)\<close>; 0 is \<^verbatim>\<open>NULL\<close>.
\<close>

definition os_malloc :: "size_t \<Rightarrow> heap \<Rightarrow> addr res" where
  "os_malloc sz s =
     (if sz = 0 then Inr (0, s)
      else
        let requested = ALIGN META_SIZE + ALIGN sz in
        if heap_pre s = 0 then
          bnd (initialise_heap requested s) (\<lambda>new_block s1. Inr (new_block + META_SIZE, s1))
        else
          bnd (find_fit requested s) (\<lambda>new_block s1.
            if new_block \<noteq> 0 then
              bnd (upd new_block (\<lambda>b. b\<lparr>status := STATUS_ALLOC\<rparr>) s1) (\<lambda>_ s2.
              Inr (new_block + META_SIZE, s2))
            else if requested > MMAP_THRESHOLD then
              bnd (mmap_alloc requested s1) (\<lambda>new_block s2.
              bnd (upd (heap_end s2) (\<lambda>b. b\<lparr>next := new_block\<rparr>) s2) (\<lambda>_ s3.
              bnd (rd (heap_end s3) s3) (\<lambda>e _.
              Inr (new_block + META_SIZE, s3\<lparr>heap_end := next e\<rparr>))))
            else
              bnd (get_last s1) (\<lambda>new_block s2.
                bnd (if new_block \<noteq> 0 then rd new_block s2
                     else Inr (\<lparr>size = 0, status = STATUS_ALLOC, prev = 0, next = 0\<rparr>, s2))
                  (\<lambda>nb _.
                if new_block \<noteq> 0 \<and> status nb = STATUS_FREE then
                  bnd (sbrk (ALIGN sz - size nb) s2) (\<lambda>addr s3.
                  bnd (upd new_block (\<lambda>b. b\<lparr>size := ALIGN sz, status := STATUS_ALLOC\<rparr>) s3)
                    (\<lambda>_ s4. Inr (new_block + META_SIZE, s4)))
                else
                  bnd (sbrk requested s2) (\<lambda>new_block s3.
                  let s4 = put new_block \<lparr>size = ALIGN sz, status = STATUS_ALLOC,
                                           prev = heap_end s3, next = 0\<rparr> s3 in
                  bnd (upd (heap_end s4) (\<lambda>b. b\<lparr>next := new_block\<rparr>) s4) (\<lambda>_ s5.
                  bnd (rd (heap_end s5) s5) (\<lambda>e _.
                  bnd (upd new_block (\<lambda>b. b\<lparr>status := STATUS_ALLOC\<rparr>)
                         (s5\<lparr>heap_end := next e\<rparr>)) (\<lambda>_ s6.
                  Inr (new_block + META_SIZE, s6)))))))))"

subsection \<open>os_free\<close>

text \<open>
  The four statements that merge the block \<open>n\<close> into the block \<open>a\<close> before
  it. osmem.c has no function for them: they are written out three times in
  \<^verbatim>\<open>os_free\<close> and once in \<^verbatim>\<open>os_realloc\<close>, each time as
  \<^verbatim>\<open>a->size += ALIGN(sizeof(struct block_meta)) + n->size; a->next = n->next;
  if (n->next) n->next->prev = a; if (n == heap_end) heap_end = a;\<close>
\<close>

definition coalesce :: "addr \<Rightarrow> addr \<Rightarrow> heap \<Rightarrow> unit res" where
  "coalesce a n s =
     bnd (rd n s) (\<lambda>nb _.
     bnd (upd a (\<lambda>b. b\<lparr>size := size b + (ALIGN META_SIZE + size nb)\<rparr>) s) (\<lambda>_ s1.
     bnd (rd n s1) (\<lambda>nb1 _.
     bnd (upd a (\<lambda>b. b\<lparr>next := next nb1\<rparr>) s1) (\<lambda>_ s2.
     bnd (rd n s2) (\<lambda>nb2 _.
     bnd (if next nb2 \<noteq> 0 then upd (next nb2) (\<lambda>b. b\<lparr>prev := a\<rparr>) s2
          else Inr ((), s2)) (\<lambda>_ s3.
     Inr ((), if n = heap_end s3 then s3\<lparr>heap_end := a\<rparr> else s3)))))))"

definition os_free :: "addr \<Rightarrow> heap \<Rightarrow> unit res" where
  "os_free ptr s =
     (if ptr = 0 then Inr ((), s)
      else
        let addr = ptr - ALIGN META_SIZE in
        bnd (rd addr s) (\<lambda>a _.
          let nxt = next a; prv = prev a in
          if status a = STATUS_MAPPED then
            bnd (if prv \<noteq> 0 then upd prv (\<lambda>b. b\<lparr>next := nxt\<rparr>) s
                 else Inr ((), s\<lparr>heap_start := nxt\<rparr>)) (\<lambda>_ s1.
            bnd (if nxt \<noteq> 0 then upd nxt (\<lambda>b. b\<lparr>prev := prv\<rparr>) s1
                 else Inr ((), s1\<lparr>heap_end := prv\<rparr>)) (\<lambda>_ s2.
            bnd (rd addr s2) (\<lambda>a2 _.
            bnd (munmap addr (ALIGN META_SIZE + ALIGN (size a2)) s2) (\<lambda>_ s3.
            let s4 = (if heap_end s3 = 0 \<or> heap_start s3 = 0 then s3\<lparr>heap_pre := 0\<rparr> else s3) in
            if nxt \<noteq> 0 \<and> prv \<noteq> 0 then
              bnd (rd prv s4) (\<lambda>p _.
                if status p = STATUS_FREE then
                  bnd (rd nxt s4) (\<lambda>n _.
                    if status n = STATUS_FREE then coalesce prv nxt s4
                    else Inr ((), s4))
                else Inr ((), s4))
            else Inr ((), s4)))))
          else
            bnd (upd addr (\<lambda>b. b\<lparr>status := STATUS_FREE\<rparr>) s) (\<lambda>_ s1.
            bnd (if nxt \<noteq> 0 then
                   bnd (rd nxt s1) (\<lambda>n _.
                     if status n = STATUS_FREE then coalesce addr nxt s1 else Inr ((), s1))
                 else Inr ((), s1)) (\<lambda>_ s2.
            if prv \<noteq> 0 then
              bnd (rd prv s2) (\<lambda>p _.
                if status p = STATUS_FREE then coalesce prv addr s2 else Inr ((), s2))
            else Inr ((), s2)))))"

subsection \<open>memset, os_calloc\<close>

function memset_loop :: "(addr \<Rightarrow> byte) \<Rightarrow> addr \<Rightarrow> byte \<Rightarrow> size_t \<Rightarrow> size_t \<Rightarrow> addr \<Rightarrow> byte" where
  "memset_loop m src v num i =
     (if i < num then memset_loop (m(src + i := v)) src v num (i + 1) else m)"
  by pat_completeness auto
termination
proof (relation "measure (\<lambda>(m, src, v, num, i). unat num - unat i)")
  show "wf (measure (\<lambda>(m, src, v, num, i). unat num - unat i))"
    by simp
next
  fix m :: "addr \<Rightarrow> byte" and src :: addr and v :: byte and num i :: size_t
  assume "i < num"
  then have lt: "unat i < unat num"
    by (simp add: word_less_nat_alt)
  have "unat num < 2 ^ 64"
    using unsigned_less [of num] by simp
  with lt have "unat i + unat (1 :: size_t) < 2 ^ LENGTH(64)"
    by simp
  then have "unat (i + 1) = unat i + unat (1 :: size_t)"
    by (simp only: unat_add_lem)
  with lt show "((m(src + i := v), src, v, num, i + 1), (m, src, v, num, i))
        \<in> measure (\<lambda>(m, src, v, num, i). unat num - unat i)"
    by simp
qed

declare memset_loop.simps [simp del]

definition memset :: "addr \<Rightarrow> byte \<Rightarrow> size_t \<Rightarrow> heap \<Rightarrow> heap" where
  "memset source v num s = s\<lparr>mem := memset_loop (mem s) source v num 0\<rparr>"

definition os_calloc :: "size_t \<Rightarrow> size_t \<Rightarrow> heap \<Rightarrow> addr res" where
  "os_calloc nmemb sz s =
     (if nmemb = 0 \<or> sz = 0 then Inr (0, s)
      else
        let total = ALIGN (nmemb * sz) in
        if total + META_SIZE \<ge> PAGE_SIZE then
          bnd (mmap_alloc (total + META_SIZE) s) (\<lambda>new_block s1.
            if heap_end s1 \<noteq> 0 then
              bnd (upd (heap_end s1) (\<lambda>b. b\<lparr>next := new_block\<rparr>) s1) (\<lambda>_ s2.
              bnd (rd (heap_end s2) s2) (\<lambda>e _.
              Inr (new_block + META_SIZE, s2\<lparr>heap_end := next e\<rparr>)))
            else Inr (new_block + META_SIZE, s1\<lparr>heap_start := new_block, heap_end := new_block\<rparr>))
        else
          bnd (os_malloc total s) (\<lambda>addr s1.
            Inr (addr, if addr \<noteq> 0 then memset addr 0 total s1 else s1)))"

subsection \<open>memcpy, os_realloc\<close>

function memcpy_loop :: "(addr \<Rightarrow> byte) \<Rightarrow> addr \<Rightarrow> addr \<Rightarrow> size_t \<Rightarrow> size_t \<Rightarrow> addr \<Rightarrow> byte" where
  "memcpy_loop m dst src num i =
     (if i < num then memcpy_loop (m(dst + i := m (src + i))) dst src num (i + 1) else m)"
  by pat_completeness auto
termination
proof (relation "measure (\<lambda>(m, dst, src, num, i). unat num - unat i)")
  show "wf (measure (\<lambda>(m, dst, src, num, i). unat num - unat i))"
    by simp
next
  fix m :: "addr \<Rightarrow> byte" and dst src :: addr and num i :: size_t
  assume "i < num"
  then have lt: "unat i < unat num"
    by (simp add: word_less_nat_alt)
  have "unat num < 2 ^ 64"
    using unsigned_less [of num] by simp
  with lt have "unat i + unat (1 :: size_t) < 2 ^ LENGTH(64)"
    by simp
  then have "unat (i + 1) = unat i + unat (1 :: size_t)"
    by (simp only: unat_add_lem)
  with lt show "((m(dst + i := m (src + i)), dst, src, num, i + 1), (m, dst, src, num, i))
        \<in> measure (\<lambda>(m, dst, src, num, i). unat num - unat i)"
    by simp
qed

declare memcpy_loop.simps [simp del]

definition memcpy :: "addr \<Rightarrow> addr \<Rightarrow> size_t \<Rightarrow> heap \<Rightarrow> heap" where
  "memcpy destination source num s = s\<lparr>mem := memcpy_loop (mem s) destination source num 0\<rparr>"

text \<open>
  The end of \<^verbatim>\<open>os_realloc\<close>, after the attempt to merge with the next block:
  a new block, the copy of \<open>num\<close> bytes, and the release of the old block.
\<close>

definition realloc_move :: "addr \<Rightarrow> size_t \<Rightarrow> size_t \<Rightarrow> addr \<Rightarrow> size_t \<Rightarrow> heap \<Rightarrow> addr res" where
  "realloc_move ptr sz requested block prev_size s =
     bnd (os_malloc sz s) (\<lambda>addr s1.
       let s2 = memcpy addr ptr (if prev_size < sz then prev_size else sz) s1;
           s3 = (if requested > MMAP_THRESHOLD \<and> block = heap_pre s2
                 then s2\<lparr>heap_pre := 0\<rparr> else s2)
       in bnd (os_free ptr s3) (\<lambda>_ s4. Inr (addr, s4)))"

definition os_realloc :: "addr \<Rightarrow> size_t \<Rightarrow> heap \<Rightarrow> addr res" where
  "os_realloc ptr sz s =
     (let requested = ALIGN sz in
      if ptr = 0 then os_malloc sz s
      else if requested = 0 then bnd (os_free ptr s) (\<lambda>_ s1. Inr (0, s1))
      else
        let block = ptr - ALIGN META_SIZE in
        bnd (rd block s) (\<lambda>b _.
          let prev_size = size b in
          if status b = STATUS_FREE then Inr (0, s)
          else if status b = STATUS_MAPPED \<and> size b \<noteq> requested then
            bnd (os_malloc sz s) (\<lambda>addr s1.
              let s2 = memcpy addr ptr (if prev_size < requested then prev_size else requested) s1
              in bnd (os_free ptr s2) (\<lambda>_ s3. Inr (addr, s3)))
          else if size b = requested then Inr (block + META_SIZE, s)
          else if requested < size b then
            let remaining_size = size b - requested in
            bnd (if remaining_size \<ge> ALIGN META_SIZE + 1
                 then fragment block remaining_size (requested + ALIGN META_SIZE) s
                 else Inr ((), s)) (\<lambda>_ s1.
            bnd (upd block (\<lambda>b. b\<lparr>status := STATUS_ALLOC\<rparr>) s1) (\<lambda>_ s2.
            Inr (block + META_SIZE, s2)))
          else
            bnd (if requested - size b \<le> MMAP_THRESHOLD then get_last s else Inr (0, s))
              (\<lambda>last _.
            if requested - size b \<le> MMAP_THRESHOLD \<and> last = block then
              bnd (sbrk (requested - size b) s) (\<lambda>addr s1.
              bnd (upd block (\<lambda>b. b\<lparr>size := requested\<rparr>) s1) (\<lambda>_ s2.
              Inr (block + META_SIZE, s2)))
            else
              let nxt = next b in
              bnd (if nxt \<noteq> 0 then rd nxt s
                   else Inr (\<lparr>size = 0, status = STATUS_ALLOC, prev = 0, next = 0\<rparr>, s))
                (\<lambda>n _.
              if nxt \<noteq> 0 \<and> status n = STATUS_FREE then
                bnd (coalesce block nxt s) (\<lambda>_ s1.
                bnd (rd block s1) (\<lambda>b1 _.
                  if size b1 \<ge> requested then
                    let remaining_size = size b1 - requested in
                    bnd (if remaining_size \<ge> ALIGN META_SIZE + 1
                         then fragment block remaining_size (requested + ALIGN META_SIZE) s1
                         else Inr ((), s1)) (\<lambda>_ s2.
                    Inr (block + META_SIZE, s2))
                  else realloc_move ptr sz requested block prev_size s1))
              else realloc_move ptr sz requested block prev_size s))))"

section \<open>The empty heap\<close>

text \<open>
  The state before the first call: no block, the arena not preallocated, a
  break at \<open>0x10000000\<close> that may rise to \<open>0x20000000\<close>, and mappings
  placed from \<open>0x7f0000000000\<close> on.
\<close>

definition empty_heap :: heap where
  "empty_heap = \<lparr>heap_start = 0, heap_end = 0, heap_pre = 0, blocks = (\<lambda>_. None),
     mem = (\<lambda>_. 0), brk = 0x10000000, brk_limit = 0x20000000, mmap_next = 0x7f0000000000\<rparr>"

section \<open>Sequences of calls\<close>





section \<open>The registry as a list\<close>

text \<open>
  The specification's words for the placement search: a block qualifies for a
  requirement when it is free and its capacity, header plus payload, is at
  least the requirement; its leftover is the capacity minus the requirement.
  Both are computed in \<^verbatim>\<open>size_t\<close>, as \<^verbatim>\<open>find_fit\<close> does.
\<close>

definition qualifies :: "size_t \<Rightarrow> block_meta \<Rightarrow> bool" where
  "qualifies requested b = (status b = STATUS_FREE \<and> requested \<le> META_SIZE + size b)"

definition leftover :: "size_t \<Rightarrow> block_meta \<Rightarrow> size_t" where
  "leftover requested b = META_SIZE + size b - requested"

text \<open>
  \<open>scanned s requested a xs\<close>: the blocks met from \<open>a\<close> on along the \<open>next\<close>
  links are those of \<open>xs\<close>, address and header, in this order, up to the end
  of the list (a null \<open>next\<close>) or up to the first block that qualifies with a
  leftover of zero, whichever comes first. What follows such a block is not
  looked at.
\<close>

fun scanned :: "heap \<Rightarrow> size_t \<Rightarrow> addr \<Rightarrow> (addr \<times> block_meta) list \<Rightarrow> bool" where
  "scanned s requested a [] = (a = 0)"
| "scanned s requested a ((x, b) # xs) =
     (a = x \<and> x \<noteq> 0 \<and> blocks s x = Some b \<and>
      (if qualifies requested b \<and> leftover requested b = 0 then xs = []
       else scanned s requested (next b) xs))"

text \<open>
  A heap with three allocated blocks, two free blocks between them and the
  free remainder of the arena.
\<close>

definition sample_registry :: "(addr \<times> block_meta) list" where
  "sample_registry =
     [(0x10000000, \<lparr>size = 104, status = STATUS_ALLOC, prev = 0, next = 0x10000088\<rparr>),
      (0x10000088, \<lparr>size = 200, status = STATUS_FREE, prev = 0x10000000, next = 0x10000170\<rparr>),
      (0x10000170, \<lparr>size = 104, status = STATUS_ALLOC, prev = 0x10000088, next = 0x100001F8\<rparr>),
      (0x100001F8, \<lparr>size = 56, status = STATUS_FREE, prev = 0x10000170, next = 0x10000250\<rparr>),
      (0x10000250, \<lparr>size = 104, status = STATUS_ALLOC, prev = 0x100001F8, next = 0x100002D8\<rparr>),
      (0x100002D8, \<lparr>size = 130312, status = STATUS_FREE, prev = 0x10000250, next = 0\<rparr>)]"

definition sample_heap :: heap where
  "sample_heap = \<lparr>heap_start = 0x10000000, heap_end = 0x100002D8, heap_pre = 0x10000020,
     blocks = map_of sample_registry, mem = (\<lambda>_. 0), brk = 0x10020000,
     brk_limit = 0x20000000, mmap_next = 0x7f0000000000\<rparr>"


section \<open>Three allocated blocks in a row\<close>




section \<open>Well-formed heaps\<close>

text \<open>
  The registry as the list of the addresses met from \<open>heap_start\<close> along the
  \<open>next\<close> links: \<open>path s a xs z\<close> says that the walk from \<open>a\<close> passes the
  headers at \<open>xs\<close>, in this order, and arrives at the pointer \<open>z\<close>.
\<close>

fun path :: "heap \<Rightarrow> addr \<Rightarrow> addr list \<Rightarrow> addr \<Rightarrow> bool" where
  "path s a [] z = (a = z)"
| "path s a (x # xs) z =
     (a = x \<and> x \<noteq> 0 \<and> (case blocks s x of None \<Rightarrow> False | Some b \<Rightarrow> path s (next b) xs z))"

text \<open>
  The memory of the block at \<open>x\<close>, header and payload, as numbers: it starts
  at \<open>unat x\<close> and ends before \<open>bend s x\<close>.
\<close>

definition bsize :: "heap \<Rightarrow> addr \<Rightarrow> nat" where
  "bsize s x = (case blocks s x of None \<Rightarrow> 0 | Some b \<Rightarrow> unat (size b))"

definition bend :: "heap \<Rightarrow> addr \<Rightarrow> nat" where
  "bend s x = unat x + 32 + bsize s x"

definition is_mapped :: "heap \<Rightarrow> addr \<Rightarrow> bool" where
  "is_mapped s x = (case blocks s x of None \<Rightarrow> False | Some b \<Rightarrow> status b = STATUS_MAPPED)"

text \<open>
  \<open>ascending s lo xs e\<close>: the blocks at \<open>xs\<close> lie one after the other, without
  overlap, between \<open>lo\<close> and \<open>e\<close>.
\<close>

fun ascending :: "heap \<Rightarrow> nat \<Rightarrow> addr list \<Rightarrow> nat \<Rightarrow> bool" where
  "ascending s lo [] e = (lo \<le> e)"
| "ascending s lo (x # xs) e = (lo \<le> unat x \<and> ascending s (bend s x) xs e)"

text \<open>
  \<open>back_ok s ys\<close>, for the registry in reverse order \<open>ys\<close>: the walk from the
  registry's end back along the \<open>prev\<close> links over the mapped blocks follows
  the registry and meets a block of the arena.
\<close>

fun back_ok :: "heap \<Rightarrow> addr list \<Rightarrow> bool" where
  "back_ok s [] = False"
| "back_ok s (x # rest) =
     (\<not> is_mapped s x \<or>
      (case rest of [] \<Rightarrow> False
       | y # _ \<Rightarrow> (case blocks s x of None \<Rightarrow> False | Some b \<Rightarrow> prev b = y) \<and> back_ok s rest))"

text \<open>
  \<open>heap_ok s L\<close>: \<open>L\<close> is the registry of \<open>s\<close>, from \<open>heap_start\<close> to \<open>heap_end\<close>;
  its arena blocks lie in list order, without overlap, below the break; its
  mapped blocks lie in list order, without overlap, between \<open>brk_limit\<close> and
  \<open>mmap_next\<close>; addresses and sizes are multiples of 8; and once the arena is
  ready the walk back from \<open>heap_end\<close> finds the last arena block.
\<close>

definition heap_ok :: "heap \<Rightarrow> addr list \<Rightarrow> bool" where
  "heap_ok s L =
     (path s (heap_start s) L 0 \<and> distinct L \<and>
      heap_end s = (if L = [] then 0 else last L) \<and>
      ascending s 0 (filter (\<lambda>x. \<not> is_mapped s x) L) (unat (brk s)) \<and>
      ascending s (unat (brk_limit s)) (filter (is_mapped s) L) (unat (mmap_next s)) \<and>
      brk s \<noteq> 0 \<and> unat (brk s) \<le> unat (brk_limit s) \<and>
      (\<forall>x\<in>set L. 8 dvd unat x \<and> 8 dvd bsize s x) \<and>
      8 dvd unat (brk s) \<and> 8 dvd unat (mmap_next s) \<and>
      (heap_pre s \<noteq> 0 \<longrightarrow> back_ok s (rev L)))"

text \<open>
  \<open>allocated_at s L p n\<close>: the pointer \<open>p\<close> is the payload of a block of the
  registry \<open>L\<close> of \<open>s\<close> that is not free; the payload has at least \<open>n\<close> bytes
  and starts at a multiple of 8; and the payload shares no byte with the
  memory, header or payload, of any other block of the registry.
\<close>

definition allocated_at :: "heap \<Rightarrow> addr list \<Rightarrow> addr \<Rightarrow> size_t \<Rightarrow> bool" where
  "allocated_at s L p n =
     (p - META_SIZE \<in> set L \<and> unat p = unat (p - META_SIZE) + 32 \<and> 8 dvd unat p \<and>
      (case blocks s (p - META_SIZE) of None \<Rightarrow> False
       | Some b \<Rightarrow> status b \<noteq> STATUS_FREE \<and> n \<le> size b) \<and>
      (\<forall>y\<in>set L. y \<noteq> p - META_SIZE \<longrightarrow>
         bend s y \<le> unat p \<or> unat p + bsize s (p - META_SIZE) \<le> unat y))"

section \<open>Arithmetic of the helper macros\<close>

lemma and_not7: "(y::size_t) AND NOT 7 = push_bit 3 (drop_bit 3 y)"
proof -
  have h: "NOT (7::size_t) = NOT (mask 3)" by (simp add: mask_eq_exp_minus_1)
  have "y AND NOT (mask 3) = push_bit 3 (drop_bit 3 y)"
    by (rule bit_eqI) (auto simp: bit_simps)
  with h show ?thesis by (simp only:)
qed

lemma unat_and_not7: "unat ((y::size_t) AND NOT 7) = (unat y div 8) * 8"
proof -
  have lt: "unat y < 2 ^ 64" using unsigned_less [of y] by simp
  have "unat (push_bit 3 (drop_bit 3 y)) = take_bit 64 (push_bit 3 (drop_bit 3 (unat y)))"
    using take_bit_nat_eq_self [OF lt]
    by (simp add: unsigned_push_bit_eq unsigned_drop_bit_eq)
  also have "push_bit 3 (drop_bit 3 (unat y)) = (unat y div 8) * 8"
    by (simp add: push_bit_eq_mult drop_bit_eq_div)
  also have "take_bit 64 ((unat y div 8) * 8) = (unat y div 8) * 8"
  proof (rule take_bit_nat_eq_self)
    have "(unat y div 8) * 8 \<le> unat y" by simp
    also note lt
    finally show "(unat y div 8) * 8 < 2 ^ 64" .
  qed
  finally show ?thesis by (simp only: and_not7)
qed

lemma ALIGN_unat: "unat x + 7 < 2 ^ 64 \<Longrightarrow> unat (ALIGN x) = ((unat x + 7) div 8) * 8"
proof -
  assume a: "unat x + 7 < 2 ^ 64"
  then have "unat x + unat (7 :: size_t) < 2 ^ LENGTH(64)" by simp
  then have "unat (x + 7) = unat x + unat (7 :: size_t)" by (simp only: unat_add_lem)
  then have "unat (x + 7) = unat x + 7" by simp
  moreover have "ALIGN x = (x + 7) AND NOT 7" by (simp add: ALIGN_def ALIGNMENT_def)
  ultimately show ?thesis by (simp only: unat_and_not7)
qed

lemma ALIGN_dvd: "8 dvd unat (ALIGN x)"
proof -
  have "ALIGN x = (x + 7) AND NOT 7" by (simp add: ALIGN_def ALIGNMENT_def)
  then show ?thesis by (simp only: unat_and_not7) simp
qed

lemma ALIGN_wrap: "\<not> unat x + 7 < 2 ^ 64 \<Longrightarrow> ALIGN x = 0"
proof -
  assume a: "\<not> unat x + 7 < 2 ^ 64"
  have lt: "unat x < 2 ^ 64" using unsigned_less [of x] by simp
  have "unat (x + 7) = (unat x + unat (7::size_t)) mod 2 ^ LENGTH(64)"
    by (simp only: unat_word_ariths)
  also have "\<dots> = unat x + 7 - 2 ^ 64"
    using a lt by (simp add: mod_if)
  finally have "unat (x + 7) < 8" using lt a by simp
  then have "unat ((x + 7) AND NOT 7) = 0" by (simp only: unat_and_not7) simp
  then show ?thesis by (simp add: ALIGN_def ALIGNMENT_def unat_eq_0)
qed

lemma ALIGN_ge: "ALIGN x = 0 \<or> x \<le> ALIGN x"
proof (cases "unat x + 7 < 2 ^ 64")
  case True
  then have "unat (ALIGN x) = ((unat x + 7) div 8) * 8" by (rule ALIGN_unat)
  then have "unat x \<le> unat (ALIGN x)" by simp
  then show ?thesis by (simp add: word_le_nat_alt)
next
  case False
  then show ?thesis by (simp add: ALIGN_wrap)
qed

lemma word_succ_le: "(i::size_t) < num \<Longrightarrow> (i + 1 \<le> j) = (i < j)"
proof -
  assume a: "i < num"
  have "i \<noteq> - 1"
  proof
    assume "i = - 1"
    with a have "(- 1 :: size_t) < num" by simp
    then show False by (simp add: word_order.not_eq_extremum)
  qed
  then show ?thesis by (simp add: inc_less_eq_iff)
qed
section \<open>The byte loops\<close>

lemma memset_loop_at:
  "memset_loop m src v num i (src + j) = (if i \<le> j \<and> j < num then v else m (src + j))"
proof (induction m src v num i rule: memset_loop.induct)
  case (1 m src v num i)
  show ?case
  proof (cases "i < num")
    case True
    have "memset_loop m src v num i (src + j) =
        memset_loop (m(src + i := v)) src v num (i + 1) (src + j)"
      by (subst memset_loop.simps) (simp only: True if_True)
    also have "\<dots> = (if i + 1 \<le> j \<and> j < num then v else (m(src + i := v)) (src + j))"
      by (rule "1.IH" [OF True])
    also have "\<dots> = (if i \<le> j \<and> j < num then v else m (src + j))"
      using True by (auto simp: word_succ_le)
    finally show ?thesis .
  next
    case False
    have "memset_loop m src v num i (src + j) = m (src + j)"
      by (subst memset_loop.simps) (simp only: False if_False)
    with False show ?thesis by auto
  qed
qed



section \<open>Memory granted by the operating system, memory set by the allocator\<close>

lemma mmap_zero:
  assumes "mmap req s = Inr (a, s1)" "unat j < unat req"
  shows "mem s1 (a + j) = 0"
proof -
  from assms(1) have ok: "unat (mmap_next s) + page_round req < 2 ^ 64"
    and a: "a = mmap_next s"
    and m: "mem s1 = (\<lambda>x. if mmap_next s \<le> x \<and> unat x < unat (mmap_next s) + page_round req
                       then 0 else mem s x)"
    by (auto simp: mmap_def split: if_splits)
  have pr: "unat req \<le> page_round req"
    by (simp add: page_round_def)
  with assms(2) ok have "unat (mmap_next s) + unat j < 2 ^ LENGTH(64)" by simp
  then have u: "unat (mmap_next s + j) = unat (mmap_next s) + unat j"
    by (simp only: unat_add_lem)
  then have "mmap_next s \<le> mmap_next s + j" by (simp add: word_le_nat_alt)
  with u pr assms(2) show ?thesis by (simp add: m a)
qed

lemma upd_mem: "upd a f s = Inr (u, s') \<Longrightarrow> mem s' = mem s"
  by (auto simp: upd_def split: option.splits)

lemma mmap_alloc_zero:
  assumes "mmap_alloc req s = Inr (a, s1)" "unat j < unat req"
  shows "mem s1 (a + j) = 0"
  using assms mmap_zero [of req s a _ j]
  by (auto simp: mmap_alloc_def bnd_def put_def split: sum.splits)


lemma unat_add_wrap:
  fixes a b :: size_t
  assumes "\<not> unat a + unat b < 2 ^ 64"
  shows "unat (a + b) + 2 ^ 64 = unat a + unat b"
proof -
  have la: "unat a < 2 ^ 64" using unsigned_less [of a] by simp
  have lb: "unat b < 2 ^ 64" using unsigned_less [of b] by simp
  have "unat (a + b) = (unat a + unat b) mod 2 ^ LENGTH(64)"
    by (simp only: unat_word_ariths)
  also have "\<dots> = (unat a + unat b - 2 ^ 64) mod 2 ^ 64"
    using assms by (simp add: le_mod_geq)
  also have "\<dots> = unat a + unat b - 2 ^ 64"
    using la lb by (intro mod_less) arith
  finally show ?thesis using assms by arith
qed

lemma unat_add_nowrap:
  fixes a b :: size_t
  assumes "unat a + unat b < 2 ^ 64"
  shows "unat (a + b) = unat a + unat b"
  using assms unat_add_lem [of a b] by simp


lemma memset_zero:
  assumes "i < num"
  shows "mem (memset p 0 num s) (p + i) = 0"
  using assms by (simp add: memset_def memset_loop_at)

section \<open>The loop of the placement search\<close>

lemma find_fit_loop_null:
  "find_fit_loop s requested 0 best_node m = Some (Inr (best_node, m))"
  by (subst find_fit_loop.simps) simp

lemma find_fit_loop_step:
  assumes "node \<noteq> 0" "blocks s node = Some b"
  shows "find_fit_loop s requested node best_node m =
     (if qualifies requested b \<and> leftover requested b < m then
        if leftover requested b = 0 then Some (Inr (node, 0))
        else find_fit_loop s requested (next b) node (leftover requested b)
      else find_fit_loop s requested (next b) best_node m)"
  using assms
  by (subst find_fit_loop.simps) (simp add: qualifies_def leftover_def Let_def)

lemma find_fit_loop_scanned:
  assumes "scanned s requested a xs" "0 < m"
  shows "\<exists>w r. find_fit_loop s requested a best m = Some (Inr (w, r)) \<and>
     ((w = best \<and> r = m \<and>
        (\<forall>i<length xs. qualifies requested (snd (xs ! i)) \<longrightarrow> m \<le> leftover requested (snd (xs ! i))))
      \<or> (\<exists>j<length xs. w = fst (xs ! j) \<and> qualifies requested (snd (xs ! j)) \<and>
            r = leftover requested (snd (xs ! j)) \<and> r < m \<and>
            (\<forall>i<j. qualifies requested (snd (xs ! i)) \<longrightarrow> r < leftover requested (snd (xs ! i))) \<and>
            (\<forall>i<length xs. qualifies requested (snd (xs ! i)) \<longrightarrow> r \<le> leftover requested (snd (xs ! i)))))"
  using assms
proof (induction xs arbitrary: a best m)
  case Nil
  then show ?case by (simp add: find_fit_loop_null)
next
  case (Cons xb xs)
  obtain x b where xb: "xb = (x, b)" by (cases xb)
  from Cons.prems xb have a: "a = x" "x \<noteq> 0" "blocks s x = Some b" by simp_all
  note step = find_fit_loop_step [OF a(2) a(3), of requested]
  show ?case
  proof (cases "qualifies requested b \<and> leftover requested b < m")
    case better: True
    show ?thesis
    proof (cases "leftover requested b = 0")
      case True
      with better Cons.prems xb have "xs = []" by simp
      with better True a xb show ?thesis
        by (simp add: step)
    next
      case False
      with Cons.prems xb have sc: "scanned s requested (next b) xs" by simp
      from False have pos: "0 < leftover requested b" by (simp add: word_greater_zero_iff)
      from Cons.IH [OF sc pos, of x] obtain w r where
        loop: "find_fit_loop s requested (next b) x (leftover requested b) = Some (Inr (w, r))"
        and alt: "(w = x \<and> r = leftover requested b \<and>
          (\<forall>i<length xs. qualifies requested (snd (xs ! i)) \<longrightarrow> leftover requested b \<le> leftover requested (snd (xs ! i))))
        \<or> (\<exists>j<length xs. w = fst (xs ! j) \<and> qualifies requested (snd (xs ! j)) \<and>
            r = leftover requested (snd (xs ! j)) \<and> r < leftover requested b \<and>
            (\<forall>i<j. qualifies requested (snd (xs ! i)) \<longrightarrow> r < leftover requested (snd (xs ! i))) \<and>
            (\<forall>i<length xs. qualifies requested (snd (xs ! i)) \<longrightarrow> r \<le> leftover requested (snd (xs ! i))))"
        by blast
      have res: "find_fit_loop s requested a best m = Some (Inr (w, r))"
        using better False loop a by (simp add: step)
      from alt show ?thesis
      proof
        assume h: "w = x \<and> r = leftover requested b \<and>
          (\<forall>i<length xs. qualifies requested (snd (xs ! i)) \<longrightarrow> leftover requested b \<le> leftover requested (snd (xs ! i)))"
        have "\<forall>i<length (xb # xs). qualifies requested (snd ((xb # xs) ! i)) \<longrightarrow> r \<le> leftover requested (snd ((xb # xs) ! i))"
          using h xb by (auto simp: nth_Cons split: nat.splits)
        with h better xb res show ?thesis
          by (intro exI [of _ w] exI [of _ r] conjI disjI2 exI [of _ 0]) auto
      next
        assume "\<exists>j<length xs. w = fst (xs ! j) \<and> qualifies requested (snd (xs ! j)) \<and>
            r = leftover requested (snd (xs ! j)) \<and> r < leftover requested b \<and>
            (\<forall>i<j. qualifies requested (snd (xs ! i)) \<longrightarrow> r < leftover requested (snd (xs ! i))) \<and>
            (\<forall>i<length xs. qualifies requested (snd (xs ! i)) \<longrightarrow> r \<le> leftover requested (snd (xs ! i)))"
        then obtain j where j: "j < length xs" "w = fst (xs ! j)" "qualifies requested (snd (xs ! j))"
            "r = leftover requested (snd (xs ! j))" "r < leftover requested b"
            and first: "\<forall>i<j. qualifies requested (snd (xs ! i)) \<longrightarrow> r < leftover requested (snd (xs ! i))"
            and least: "\<forall>i<length xs. qualifies requested (snd (xs ! i)) \<longrightarrow> r \<le> leftover requested (snd (xs ! i))"
          by blast
        have f': "\<forall>i<Suc j. qualifies requested (snd ((xb # xs) ! i)) \<longrightarrow> r < leftover requested (snd ((xb # xs) ! i))"
          using first j(5) xb by (auto simp: nth_Cons split: nat.splits)
        have l': "\<forall>i<length (xb # xs). qualifies requested (snd ((xb # xs) ! i)) \<longrightarrow> r \<le> leftover requested (snd ((xb # xs) ! i))"
          using least j(5) xb by (auto simp: nth_Cons split: nat.splits)
        from j(5) better have "r < m" by (blast intro: less_trans)
        with j f' l' res show ?thesis
          by (intro exI [of _ w] exI [of _ r] conjI disjI2 exI [of _ "Suc j"]) auto
      qed
    qed
  next
    case worse: False
    with Cons.prems(2) have "\<not> (qualifies requested b \<and> leftover requested b = 0)" by auto
    with Cons.prems xb have sc: "scanned s requested (next b) xs" by simp
    from Cons.IH [OF sc Cons.prems(2), of best] obtain w r where
      loop: "find_fit_loop s requested (next b) best m = Some (Inr (w, r))"
      and alt: "(w = best \<and> r = m \<and>
        (\<forall>i<length xs. qualifies requested (snd (xs ! i)) \<longrightarrow> m \<le> leftover requested (snd (xs ! i))))
      \<or> (\<exists>j<length xs. w = fst (xs ! j) \<and> qualifies requested (snd (xs ! j)) \<and>
            r = leftover requested (snd (xs ! j)) \<and> r < m \<and>
            (\<forall>i<j. qualifies requested (snd (xs ! i)) \<longrightarrow> r < leftover requested (snd (xs ! i))) \<and>
            (\<forall>i<length xs. qualifies requested (snd (xs ! i)) \<longrightarrow> r \<le> leftover requested (snd (xs ! i))))"
      by blast
    have res: "find_fit_loop s requested a best m = Some (Inr (w, r))"
      using loop a by (simp only: step if_not_P [OF worse])
    from worse have xq: "qualifies requested b \<longrightarrow> m \<le> leftover requested b" by auto
    from alt show ?thesis
    proof
      assume h: "w = best \<and> r = m \<and>
        (\<forall>i<length xs. qualifies requested (snd (xs ! i)) \<longrightarrow> m \<le> leftover requested (snd (xs ! i)))"
      have "\<forall>i<length (xb # xs). qualifies requested (snd ((xb # xs) ! i)) \<longrightarrow> m \<le> leftover requested (snd ((xb # xs) ! i))"
        using h xq xb by (auto simp: nth_Cons split: nat.splits)
      with h res show ?thesis by blast
    next
      assume "\<exists>j<length xs. w = fst (xs ! j) \<and> qualifies requested (snd (xs ! j)) \<and>
            r = leftover requested (snd (xs ! j)) \<and> r < m \<and>
            (\<forall>i<j. qualifies requested (snd (xs ! i)) \<longrightarrow> r < leftover requested (snd (xs ! i))) \<and>
            (\<forall>i<length xs. qualifies requested (snd (xs ! i)) \<longrightarrow> r \<le> leftover requested (snd (xs ! i)))"
      then obtain j where j: "j < length xs" "w = fst (xs ! j)" "qualifies requested (snd (xs ! j))"
            "r = leftover requested (snd (xs ! j))" "r < m"
            and first: "\<forall>i<j. qualifies requested (snd (xs ! i)) \<longrightarrow> r < leftover requested (snd (xs ! i))"
            and least: "\<forall>i<length xs. qualifies requested (snd (xs ! i)) \<longrightarrow> r \<le> leftover requested (snd (xs ! i))"
        by blast
      have f': "\<forall>i<Suc j. qualifies requested (snd ((xb # xs) ! i)) \<longrightarrow> r < leftover requested (snd ((xb # xs) ! i))"
        using first j(5) xq xb by (auto simp: nth_Cons split: nat.splits)
      have l': "\<forall>i<length (xb # xs). qualifies requested (snd ((xb # xs) ! i)) \<longrightarrow> r \<le> leftover requested (snd ((xb # xs) ! i))"
        using least j(5) xq xb by (auto simp: nth_Cons split: nat.splits)
      from j f' l' res show ?thesis
        by (intro exI [of _ w] exI [of _ r] conjI disjI2 exI [of _ "Suc j"]) auto
    qed
  qed
qed


lemma scanned_nth:
  assumes "scanned s requested a xs" "j < length xs"
  shows "fst (xs ! j) \<noteq> 0 \<and> blocks s (fst (xs ! j)) = Some (snd (xs ! j)) \<and>
     (if qualifies requested (snd (xs ! j)) \<and> leftover requested (snd (xs ! j)) = 0
      then Suc j = length xs
      else next (snd (xs ! j)) = 0 \<or> blocks s (next (snd (xs ! j))) \<noteq> None)"
  using assms
proof (induction xs arbitrary: a j)
  case Nil
  then show ?case by simp
next
  case (Cons xb xs)
  obtain x b where xb: "xb = (x, b)" by (cases xb)
  show ?case
  proof (cases j)
    case 0
    with Cons.prems xb show ?thesis
      by (cases xs) (auto split: if_splits)
  next
    case (Suc k)
    with Cons.prems xb have "scanned s requested (next b) xs" "k < length xs"
      by (auto split: if_splits)
    from Cons.IH [OF this] Suc show ?thesis by (auto split: if_splits)
  qed
qed

lemma leftover_not_max:
  assumes "qualifies requested b" "requested \<noteq> 0"
  shows "leftover requested b \<noteq> - 1"
proof
  assume m: "leftover requested b = - 1"
  from assms(1) have le: "requested \<le> META_SIZE + size b" by (simp add: qualifies_def)
  then have "unat (leftover requested b) = unat (META_SIZE + size b) - unat requested"
    by (simp add: leftover_def unat_sub)
  moreover have "unat requested \<noteq> 0" using assms(2) by (simp add: unat_eq_0)
  moreover have "unat (META_SIZE + size b) < 2 ^ 64"
    using unsigned_less [of "META_SIZE + size b"] by simp
  ultimately have "unat (leftover requested b) < 2 ^ 64 - 1" by simp
  moreover have "unat (- 1 :: size_t) = 2 ^ 64 - 1"
    by (simp add: unsigned_minus_1_eq_mask mask_eq_exp_minus_1)
  ultimately show False using m by simp
qed

lemma not_overlaps:
  assumes "32 \<le> unat req" "unat req \<le> 2 ^ 64 - 32"
  shows "\<not> overlaps req"
proof
  assume "overlaps req"
  with assms(1) have m: "unat (- req) < 32"
    by (auto simp: overlaps_def META_SIZE_def word_less_nat_alt)
  with assms(2) have "unat req + unat (- req) < 2 ^ 64" by simp
  from unat_add_nowrap [OF this] have "unat req + unat (- req) = 0" by simp
  with assms(1) show False by simp
qed

lemma not_overlaps_small:
  assumes "ALIGN META_SIZE \<le> req" "req \<le> MMAP_THRESHOLD"
  shows "\<not> overlaps req"
proof (rule not_overlaps)
  from assms(1) show "32 \<le> unat req"
    by (simp add: word_le_nat_alt ALIGN_def ALIGNMENT_def META_SIZE_def)
  from assms(2) have "unat req \<le> 131072" by (simp add: word_le_nat_alt MMAP_THRESHOLD_def)
  then show "unat req \<le> 2 ^ 64 - 32" by simp
qed

lemma fragment_unfold:
  assumes "\<not> overlaps req"
  shows "fragment node remaining_size req s =
     bnd (rd node s) (\<lambda>n _.
       let fragmented = node + req;
           s1 = put fragmented \<lparr>size = 0, status = STATUS_FREE, prev = node, next = next n\<rparr> s
       in bnd (upd node (\<lambda>b. b\<lparr>next := fragmented\<rparr>) s1) (\<lambda>_ s2.
          bnd (rd fragmented s2) (\<lambda>f _.
          bnd (if next f \<noteq> 0 then upd (next f) (\<lambda>b. b\<lparr>prev := fragmented\<rparr>) s2
               else Inr ((), s2)) (\<lambda>_ s3.
          bnd (upd fragmented (\<lambda>b. b\<lparr>size := remaining_size - ALIGN META_SIZE,
                                      status := STATUS_FREE\<rparr>) s3) (\<lambda>_ s4.
          bnd (upd node (\<lambda>b. b\<lparr>size := req - ALIGN META_SIZE\<rparr>) s4) (\<lambda>_ s5.
          Inr ((), if node = heap_end s5 then s5\<lparr>heap_end := fragmented\<rparr> else s5)))))))"
  using assms by (simp add: fragment_def)

lemma fragment_effect:
  assumes "blocks s w = Some b" "requested \<noteq> 0" "next b = 0 \<or> blocks s (next b) \<noteq> None"
    and "\<not> overlaps requested"
  shows "\<exists>s'. fragment w r requested s = Inr ((), s') \<and>
     (\<exists>f. blocks s' (w + requested) = Some f \<and> size f = r - ALIGN META_SIZE \<and>
          status f = STATUS_FREE) \<and>
     (\<exists>n. blocks s' w = Some n \<and> size n = requested - ALIGN META_SIZE \<and>
          next n = w + requested \<and> status n = status b) \<and>
     heap_end s' = (if heap_end s = w then w + requested else heap_end s)"
  using assms
  by (auto simp: fragment_unfold bnd_def rd_def upd_def put_def Let_def)


section \<open>The first allocation\<close>

lemma sbrk_nonzero:
  assumes "unat (brk s) + unat MMAP_THRESHOLD \<le> unat (brk_limit s)"
  shows "brk s + META_SIZE \<noteq> 0"
proof -
  have "unat (brk_limit s) < 2 ^ 64" using unsigned_less [of "brk_limit s"] by simp
  with assms have "unat (brk s) + unat META_SIZE < 2 ^ 64"
    by (simp add: MMAP_THRESHOLD_def META_SIZE_def)
  then have "unat (brk s + META_SIZE) = unat (brk s) + unat META_SIZE"
    by (rule unat_add_nowrap)
  then have "unat (brk s + META_SIZE) \<noteq> 0" by (simp add: META_SIZE_def)
  then show ?thesis by (simp add: unat_eq_0)
qed

lemma align_meta: "ALIGN META_SIZE = 32"
  by (simp add: ALIGN_def ALIGNMENT_def META_SIZE_def)

lemma first_arena:
  assumes pre: "heap_pre s = 0" and nz: "sz \<noteq> 0"
    and hdr: "ALIGN META_SIZE \<le> ALIGN META_SIZE + ALIGN sz"
    and small: "ALIGN META_SIZE + ALIGN sz \<le> MMAP_THRESHOLD"
    and fresh: "heap_start s = 0 \<or> heap_end s \<noteq> brk s"
    and ret: "os_malloc sz s = Inr (p, s')"
  shows "p = brk s + META_SIZE \<and> brk s' = brk s + MMAP_THRESHOLD \<and> heap_pre s' = p \<and> p \<noteq> 0 \<and>
     mmap_next s' = mmap_next s \<and>
     (\<exists>b. blocks s' (brk s) = Some b \<and> status b = STATUS_ALLOC \<and> size b = ALIGN sz \<and>
        (if ALIGN META_SIZE + 1 \<le> MMAP_THRESHOLD - (ALIGN META_SIZE + ALIGN sz)
         then next b = brk s + (ALIGN META_SIZE + ALIGN sz) \<and>
              heap_end s' = brk s + (ALIGN META_SIZE + ALIGN sz) \<and>
              blocks s' (brk s + (ALIGN META_SIZE + ALIGN sz)) =
                Some \<lparr>size = MMAP_THRESHOLD - (ALIGN META_SIZE + ALIGN sz) - ALIGN META_SIZE,
                      status = STATUS_FREE, prev = brk s, next = 0\<rparr>
         else next b = 0 \<and> heap_end s' = brk s))"
proof -
  define requested where "requested = ALIGN META_SIZE + ALIGN sz"
  from hdr have rnz: "requested \<noteq> 0" unfolding requested_def by (auto simp: align_meta)
  from ret pre nz small have ok: "unat (brk s) + unat MMAP_THRESHOLD \<le> unat (brk_limit s)"
    by (auto simp: os_malloc_def initialise_heap_def Let_def bnd_def sbrk_def
        split: if_splits sum.splits)
  note nzp = sbrk_nonzero [OF ok]
  from rnz have ne: "brk s + requested \<noteq> brk s" by simp
  have sz: "requested - ALIGN META_SIZE = ALIGN sz" by (simp add: requested_def)
  from not_overlaps_small [OF hdr small] have nov: "\<not> overlaps requested"
    by (simp add: requested_def)
  show ?thesis
    using ret pre nz small ok nzp rnz ne sz fresh nov
    unfolding requested_def [symmetric]
    apply (simp add: os_malloc_def initialise_heap_def Let_def sbrk_def requested_def [symmetric])
    apply (auto simp: bnd_def fragment_unfold rd_def upd_def put_def Let_def
         split: if_splits sum.splits option.splits)
    done
qed


lemma first_arena_returns:
  assumes pre: "heap_pre s = 0" and nz: "sz \<noteq> 0"
    and hdr: "ALIGN META_SIZE \<le> ALIGN META_SIZE + ALIGN sz"
    and small: "ALIGN META_SIZE + ALIGN sz \<le> MMAP_THRESHOLD"
    and ok: "unat (brk s) + unat MMAP_THRESHOLD \<le> unat (brk_limit s)"
    and reg: "heap_start s = 0 \<or> blocks s (heap_end s) \<noteq> None"
  shows "\<exists>p s'. os_malloc sz s = Inr (p, s')"
  using pre nz small ok reg not_overlaps_small [OF hdr small]
  apply (simp add: os_malloc_def initialise_heap_def Let_def sbrk_def)
  apply (auto simp: bnd_def fragment_unfold rd_def upd_def put_def Let_def
         split: if_splits sum.splits option.splits)
  done

lemma first_mapping:
  assumes pre: "heap_pre s = 0" and nz: "sz \<noteq> 0"
    and big: "MMAP_THRESHOLD < ALIGN META_SIZE + ALIGN sz"
    and ret: "os_malloc sz s = Inr (p, s')"
  shows "p = mmap_next s + META_SIZE \<and> brk s' = brk s \<and> heap_pre s' = 0 \<and>
     mmap_next s' = mmap_next s + word_of_nat (page_round (ALIGN META_SIZE + ALIGN sz)) \<and>
     heap_end s' = mmap_next s \<and>
     (\<exists>b. blocks s' (mmap_next s) = Some b \<and> status b = STATUS_MAPPED \<and> size b = ALIGN sz \<and>
          prev b = (if heap_start s = 0 then 0 else mmap_next s)) \<and>
     (if heap_start s = 0 then heap_start s' = mmap_next s
      else heap_start s' = heap_start s \<and>
           (\<exists>e. blocks s' (heap_end s) = Some e \<and> next e = mmap_next s))"
proof -
  define requested where "requested = ALIGN META_SIZE + ALIGN sz"
  have sz: "requested - ALIGN META_SIZE = ALIGN sz" by (simp add: requested_def)
  from big have nle: "\<not> requested \<le> MMAP_THRESHOLD" by (simp add: requested_def)
  show ?thesis
    using ret pre nz nle sz
    unfolding requested_def [symmetric]
    apply (simp add: os_malloc_def initialise_heap_def Let_def requested_def [symmetric])
    apply (auto simp: bnd_def mmap_alloc_def mmap_def rd_def upd_def put_def Let_def
         split: if_splits sum.splits option.splits)
    done
qed

lemma first_mapping_returns:
  assumes pre: "heap_pre s = 0" and nz: "sz \<noteq> 0"
    and big: "MMAP_THRESHOLD < ALIGN META_SIZE + ALIGN sz"
    and ok: "unat (mmap_next s) + page_round (ALIGN META_SIZE + ALIGN sz) < 2 ^ 64"
    and reg: "heap_start s = 0 \<or> blocks s (heap_end s) \<noteq> None"
  shows "\<exists>p s'. os_malloc sz s = Inr (p, s')"
proof -
  define requested where "requested = ALIGN META_SIZE + ALIGN sz"
  from big have nle: "\<not> requested \<le> MMAP_THRESHOLD" by (simp add: requested_def)
  from big have rnz: "requested \<noteq> 0" by (auto simp: requested_def)
  show ?thesis
    using pre nz nle rnz ok reg
    unfolding requested_def [symmetric]
    apply (simp add: os_malloc_def initialise_heap_def Let_def requested_def [symmetric])
    apply (auto simp: bnd_def mmap_alloc_def mmap_def rd_def upd_def put_def Let_def
         split: if_splits sum.splits option.splits)
    done
qed


section \<open>Allocation when no free block fits\<close>

lemma last_heap_block_null: "last_heap_block s 0 = Some (Inr 0)"
  by (subst last_heap_block.simps) simp

lemma last_heap_block_step:
  assumes "a \<noteq> 0" "blocks s a = Some b"
  shows "last_heap_block s a =
     (if status b = STATUS_MAPPED then last_heap_block s (prev b) else Some (Inr a))"
  using assms by (subst last_heap_block.simps) simp






section \<open>Writes that keep a heap well-formed\<close>

subsection \<open>Chains, extents and back links\<close>

lemma path_frame:
  assumes "\<forall>x\<in>set xs. blocks s' x \<noteq> None \<and> map_option next (blocks s' x) = map_option next (blocks s x)"
  shows "path s a xs z \<Longrightarrow> path s' a xs z"
  using assms
proof (induction xs arbitrary: a)
  case Nil
  then show ?case by simp
next
  case (Cons x xs)
  then show ?case by (auto split: option.splits)
qed

lemma path_append:
  "path s a (xs @ ys) z = (\<exists>b. path s a xs b \<and> path s b ys z)"
  by (induction xs arbitrary: a) (auto split: option.splits)

lemma path_mem: "path s a xs z \<Longrightarrow> x \<in> set xs \<Longrightarrow> x \<noteq> 0 \<and> blocks s x \<noteq> None"
  by (induction xs arbitrary: a) (auto split: option.splits)

lemma path_last_next:
  "path s a (xs @ [l]) z \<Longrightarrow> map_option next (blocks s l) = Some z"
  by (auto simp: path_append split: option.splits)

lemma ascending_frame:
  assumes "\<forall>x\<in>set xs. bsize s' x = bsize s x"
  shows "ascending s' lo xs e = ascending s lo xs e"
  using assms by (induction xs arbitrary: lo) (auto simp: bend_def)

lemma ascending_append:
  "ascending s lo (xs @ ys) e = (\<exists>m. ascending s lo xs m \<and> ascending s m ys e)"
proof (induction xs arbitrary: lo)
  case Nil
  show ?case
  proof (cases ys)
    case Nil
    then show ?thesis by auto
  next
    case (Cons y ys')
    then show ?thesis by (auto intro: order_trans)
  qed
next
  case (Cons x xs)
  then show ?case by auto
qed

lemma ascending_bounds:
  "ascending s lo xs e \<Longrightarrow> lo \<le> e"
proof (induction xs arbitrary: lo)
  case Nil
  then show ?case by simp
next
  case (Cons x xs)
  then have "bend s x \<le> e" "lo \<le> unat x" by simp_all
  then show ?case by (simp add: bend_def)
qed

lemma ascending_mem:
  "ascending s lo xs e \<Longrightarrow> x \<in> set xs \<Longrightarrow> lo \<le> unat x \<and> bend s x \<le> e"
proof (induction xs arbitrary: lo)
  case Nil
  then show ?case by simp
next
  case (Cons y ys)
  show ?case
  proof (cases "x = y")
    case True
    with Cons.prems ascending_bounds [of s "bend s y" ys e] show ?thesis by simp
  next
    case False
    with Cons.prems have "ascending s (bend s y) ys e" "x \<in> set ys" by simp_all
    from Cons.IH [OF this] Cons.prems show ?thesis by (simp add: bend_def)
  qed
qed

lemma ascending_weaken:
  "ascending s lo xs e \<Longrightarrow> lo' \<le> lo \<Longrightarrow> e \<le> e' \<Longrightarrow> ascending s lo' xs e'"
  by (induction xs arbitrary: lo lo') auto

lemma back_ok_frame:
  assumes "\<forall>x\<in>set ys. is_mapped s' x = is_mapped s x \<and>
     map_option prev (blocks s' x) = map_option prev (blocks s x)"
  shows "back_ok s' ys = back_ok s ys"
  using assms
proof (induction ys)
  case Nil
  then show ?case by simp
next
  case (Cons y ys)
  then have "back_ok s' ys = back_ok s ys" by simp
  moreover from Cons.prems have "is_mapped s' y = is_mapped s y"
    "map_option prev (blocks s' y) = map_option prev (blocks s y)" by simp_all
  ultimately show ?case
    by (cases ys) (auto split: option.splits)
qed

subsection \<open>What a well-formed heap gives\<close>

lemma heap_ok_arena_mem:
  assumes "heap_ok s L" "x \<in> set L" "\<not> is_mapped s x"
  shows "bend s x \<le> unat (brk s)"
proof -
  from assms(1) have "ascending s 0 (filter (\<lambda>x. \<not> is_mapped s x) L) (unat (brk s))"
    by (simp add: heap_ok_def)
  moreover from assms(2,3) have "x \<in> set (filter (\<lambda>x. \<not> is_mapped s x) L)" by simp
  ultimately show ?thesis using ascending_mem by blast
qed

lemma heap_ok_mapped_mem:
  assumes "heap_ok s L" "x \<in> set L" "is_mapped s x"
  shows "unat (brk_limit s) \<le> unat x \<and> bend s x \<le> unat (mmap_next s)"
proof -
  from assms(1) have "ascending s (unat (brk_limit s)) (filter (is_mapped s) L) (unat (mmap_next s))"
    by (simp add: heap_ok_def)
  moreover from assms(2,3) have "x \<in> set (filter (is_mapped s) L)" by simp
  ultimately show ?thesis using ascending_mem by blast
qed

lemma heap_ok_limits:
  assumes "heap_ok s L"
  shows "unat (brk s) \<le> unat (brk_limit s)" "unat (brk_limit s) \<le> unat (mmap_next s)"
    "brk s \<noteq> 0" "mmap_next s \<noteq> 0"
proof -
  from assms show a: "unat (brk s) \<le> unat (brk_limit s)" and c: "brk s \<noteq> 0"
    by (simp_all add: heap_ok_def)
  from assms have "ascending s (unat (brk_limit s)) (filter (is_mapped s) L) (unat (mmap_next s))"
    by (simp add: heap_ok_def)
  then show b: "unat (brk_limit s) \<le> unat (mmap_next s)" by (rule ascending_bounds)
  from c have "unat (brk s) \<noteq> 0" by (simp add: unat_eq_0)
  with a b have "unat (mmap_next s) \<noteq> 0" by simp
  then show "mmap_next s \<noteq> 0" by auto
qed

lemma heap_ok_mem_end:
  assumes "heap_ok s L" "x \<in> set L"
  shows "bend s x \<le> unat (mmap_next s)" "x \<noteq> 0" "blocks s x \<noteq> None"
    "8 dvd unat x" "8 dvd bsize s x"
proof -
  show "bend s x \<le> unat (mmap_next s)"
  proof (cases "is_mapped s x")
    case True
    with heap_ok_mapped_mem [OF assms] show ?thesis by simp
  next
    case False
    with heap_ok_arena_mem [OF assms] heap_ok_limits(1,2) [OF assms(1)] show ?thesis by simp
  qed
  from assms have "path s (heap_start s) L 0" by (simp add: heap_ok_def)
  from path_mem [OF this assms(2)] show "x \<noteq> 0" "blocks s x \<noteq> None" by simp_all
  from assms show "8 dvd unat x" "8 dvd bsize s x" by (simp_all add: heap_ok_def)
qed

lemma heap_ok_fresh_map:
  assumes "heap_ok s L" "x \<in> set L"
  shows "x \<noteq> mmap_next s"
proof -
  have e: "unat x + 32 \<le> bend s x" by (simp add: bend_def)
  from heap_ok_mem_end(1) [OF assms] e show "x \<noteq> mmap_next s" by auto
qed

lemma heap_ok_fresh_brk:
  assumes "heap_ok s L" "x \<in> set L" "unat (brk s) < unat (brk_limit s)"
  shows "x \<noteq> brk s"
proof -
  have e: "unat x + 32 \<le> bend s x" by (simp add: bend_def)
  show "x \<noteq> brk s"
  proof (cases "is_mapped s x")
    case True
    with heap_ok_mapped_mem [OF assms(1,2)] assms(3) e
    show ?thesis by auto
  next
    case False
    with heap_ok_arena_mem [OF assms(1,2)] e show ?thesis by auto
  qed
qed

lemma same_fields:
  assumes "blocks s' x = blocks s x"
  shows "bsize s' x = bsize s x" "is_mapped s' x = is_mapped s x" "bend s' x = bend s x"
  using assms by (simp_all add: bsize_def is_mapped_def bend_def)

lemma next_upd_fields:
  assumes "blocks s x = Some E" "blocks s' x = Some (E\<lparr>next := n\<rparr>)"
  shows "bsize s' x = bsize s x" "is_mapped s' x = is_mapped s x" "bend s' x = bend s x"
    "map_option prev (blocks s' x) = map_option prev (blocks s x)"
  using assms by (simp_all add: bsize_def is_mapped_def bend_def)

subsection \<open>A block appended to the registry\<close>

lemma heap_ok_append:
  assumes ok: "heap_ok s L"
    and new: "new \<notin> set L" "new \<noteq> 0" "8 dvd unat new"
    and hdr: "blocks s' new = Some B" "next B = 0" "8 dvd unat (size B)"
    and old: "\<forall>x\<in>set L. x \<noteq> last L \<longrightarrow> blocks s' x = blocks s x"
      "L \<noteq> [] \<longrightarrow> (\<exists>E. blocks s (last L) = Some E \<and> blocks s' (last L) = Some (E\<lparr>next := new\<rparr>))"
    and glob: "heap_start s' = (if L = [] then new else heap_start s)" "heap_end s' = new"
      "brk_limit s' = brk_limit s"
    and place: "if status B = STATUS_MAPPED
               then brk s' = brk s \<and> unat (mmap_next s) \<le> unat new \<and>
                    unat new + 32 + unat (size B) \<le> unat (mmap_next s') \<and> 8 dvd unat (mmap_next s')
               else mmap_next s' = mmap_next s \<and> unat (brk s) \<le> unat new \<and>
                    unat new + 32 + unat (size B) \<le> unat (brk s') \<and>
                    unat (brk s') \<le> unat (brk_limit s) \<and> 8 dvd unat (brk s')"
    and bck: "heap_pre s' \<noteq> 0 \<longrightarrow>
         status B \<noteq> STATUS_MAPPED \<or> (heap_pre s \<noteq> 0 \<and> L \<noteq> [] \<and> prev B = last L)"
  shows "heap_ok s' (L @ [new])"
proof -
  have fields: "bsize s' x = bsize s x \<and> is_mapped s' x = is_mapped s x \<and>
      map_option prev (blocks s' x) = map_option prev (blocks s x) \<and> blocks s' x \<noteq> None"
    if "x \<in> set L" for x
  proof (cases "x = last L")
    case True
    from that have "L \<noteq> []" by auto
    with old(2) obtain E where "blocks s (last L) = Some E" "blocks s' (last L) = Some (E\<lparr>next := new\<rparr>)"
      by blast
    with True next_upd_fields [of s x E s' new] show ?thesis by simp
  next
    case False
    with old(1) that have "blocks s' x = blocks s x" by simp
    with heap_ok_mem_end(3) [OF ok that] same_fields [of s' x s] show ?thesis by simp
  qed
  have bnew: "bsize s' new = unat (size B)" "is_mapped s' new = (status B = STATUS_MAPPED)"
    "bend s' new = unat new + 32 + unat (size B)"
    using hdr(1) by (simp_all add: bsize_def is_mapped_def bend_def)
  from ok have p: "path s (heap_start s) L 0" and d: "distinct L"
    and he: "heap_end s = (if L = [] then 0 else last L)"
    and aa: "ascending s 0 (filter (\<lambda>x. \<not> is_mapped s x) L) (unat (brk s))"
    and am: "ascending s (unat (brk_limit s)) (filter (is_mapped s) L) (unat (mmap_next s))"
    and al: "\<forall>x\<in>set L. 8 dvd unat x \<and> 8 dvd bsize s x" "8 dvd unat (brk s)" "8 dvd unat (mmap_next s)"
    and bk: "heap_pre s \<noteq> 0 \<longrightarrow> back_ok s (rev L)"
    by (simp_all add: heap_ok_def)
  note lim = heap_ok_limits [OF ok]
  have 1: "path s' (heap_start s') (L @ [new]) 0"
  proof (cases L rule: rev_cases)
    case Nil
    with glob(1) new(2) hdr(1,2) show ?thesis by simp
  next
    case (snoc xs l)
    with p have px: "path s (heap_start s) xs l" by (auto simp: path_append split: option.splits)
    from snoc d have "\<forall>x\<in>set xs. x \<noteq> last L" by auto
    with old(1) snoc have "\<forall>x\<in>set xs. blocks s' x = blocks s x" by simp
    moreover from snoc have "\<forall>x\<in>set xs. blocks s x \<noteq> None"
      using heap_ok_mem_end(3) [OF ok] by simp
    ultimately have "path s' (heap_start s) xs l"
      using path_frame [of xs s' s "heap_start s" l] px by simp
    moreover from old(2) snoc obtain E where "blocks s' l = Some (E\<lparr>next := new\<rparr>)" by auto
    moreover from snoc heap_ok_mem_end(2) [OF ok, of l] have "l \<noteq> 0" by simp
    ultimately show ?thesis
      using snoc glob(1) new(2) hdr(1,2) by (simp add: path_append)
  qed
  have 2: "distinct (L @ [new])" using d new(1) by simp
  have 3: "heap_end s' = (if L @ [new] = [] then 0 else last (L @ [new]))"
    using glob(2) by simp
  have fa: "filter (\<lambda>x. \<not> is_mapped s' x) L = filter (\<lambda>x. \<not> is_mapped s x) L"
    and fm: "filter (is_mapped s') L = filter (is_mapped s) L"
    using fields by (auto intro: filter_cong)
  have aa': "ascending s' 0 (filter (\<lambda>x. \<not> is_mapped s x) L) (unat (brk s))"
    using aa fields ascending_frame [of "filter (\<lambda>x. \<not> is_mapped s x) L" s' s] by simp
  have am': "ascending s' (unat (brk_limit s)) (filter (is_mapped s) L) (unat (mmap_next s))"
    using am fields ascending_frame [of "filter (is_mapped s) L" s' s] by simp
  have 45: "ascending s' 0 (filter (\<lambda>x. \<not> is_mapped s' x) (L @ [new])) (unat (brk s')) \<and>
      ascending s' (unat (brk_limit s')) (filter (is_mapped s') (L @ [new])) (unat (mmap_next s')) \<and>
      brk s' \<noteq> 0 \<and> unat (brk s') \<le> unat (brk_limit s') \<and> 8 dvd unat (brk s') \<and>
      8 dvd unat (mmap_next s')"
  proof (cases "status B = STATUS_MAPPED")
    case True
    with place have pl: "brk s' = brk s" "unat (mmap_next s) \<le> unat new"
      "unat new + 32 + unat (size B) \<le> unat (mmap_next s')" "8 dvd unat (mmap_next s')"
      by simp_all
    have "ascending s' (unat (brk_limit s)) (filter (is_mapped s) L @ [new]) (unat (mmap_next s'))"
      using am' pl bnew by (auto simp: ascending_append)
    with True aa' pl bnew fa fm glob(3) lim al show ?thesis by simp
  next
    case False
    with place have pl: "mmap_next s' = mmap_next s" "unat (brk s) \<le> unat new"
      "unat new + 32 + unat (size B) \<le> unat (brk s')" "unat (brk s') \<le> unat (brk_limit s)"
      "8 dvd unat (brk s')"
      by simp_all
    have "ascending s' 0 (filter (\<lambda>x. \<not> is_mapped s x) L @ [new]) (unat (brk s'))"
      using aa' pl bnew by (auto simp: ascending_append)
    moreover from pl have "unat (brk s') \<noteq> 0" by simp
    then have "brk s' \<noteq> 0" by auto
    ultimately show ?thesis
      using False am' pl bnew fa fm glob(3) al by simp
  qed
  have 6: "\<forall>x\<in>set (L @ [new]). 8 dvd unat x \<and> 8 dvd bsize s' x"
    using al(1) fields new(3) hdr(3) bnew by auto
  have 7: "heap_pre s' \<noteq> 0 \<longrightarrow> back_ok s' (rev (L @ [new]))"
  proof
    assume hp: "heap_pre s' \<noteq> 0"
    show "back_ok s' (rev (L @ [new]))"
    proof (cases "status B = STATUS_MAPPED")
      case False
      with bnew show ?thesis by simp
    next
      case True
      with bck hp have b: "heap_pre s \<noteq> 0" "L \<noteq> []" "prev B = last L" by simp_all
      with bk have "back_ok s (rev L)" by simp
      then have bo: "back_ok s' (rev L)"
        using back_ok_frame [of "rev L" s' s] fields by simp
      from b(2) obtain y ys where r: "rev L = y # ys" and y: "y = last L"
        by (cases L rule: rev_cases) auto
      have "back_ok s' (new # (y # ys)) =
          (\<not> is_mapped s' new \<or> (prev B = y \<and> back_ok s' (y # ys)))"
        by (simp only: back_ok.simps list.case hdr(1) option.case)
      with bo r y b(3) have "back_ok s' (new # rev L)" by (simp only:) simp
      then show ?thesis by simp
    qed
  qed
  from 1 2 3 45 6 7 show ?thesis by (simp add: heap_ok_def)
qed

subsection \<open>The last block of the arena\<close>

lemma last_heap_block_back:
  assumes "back_ok s ys" "\<forall>y\<in>set ys. y \<noteq> 0 \<and> blocks s y \<noteq> None"
  shows "\<exists>x pre post. last_heap_block s (hd ys) = Some (Inr x) \<and> ys = pre @ x # post \<and>
     (\<forall>y\<in>set pre. is_mapped s y) \<and> \<not> is_mapped s x"
  using assms
proof (induction ys)
  case Nil
  then show ?case by simp
next
  case (Cons y ys)
  from Cons.prems(2) obtain b where y: "y \<noteq> 0" "blocks s y = Some b" by auto
  show ?case
  proof (cases "is_mapped s y")
    case False
    with y have "last_heap_block s y = Some (Inr y)"
      by (simp add: last_heap_block_step is_mapped_def)
    with False show ?thesis by (intro exI [of _ y] exI [of _ "[]"] exI [of _ ys]) simp
  next
    case True
    with Cons.prems(1) y obtain z zs where ys: "ys = z # zs" and pv: "prev b = z"
      and bo: "back_ok s ys"
      by (cases ys) auto
    from Cons.IH [OF bo] Cons.prems(2) ys obtain x pre post where
      l: "last_heap_block s z = Some (Inr x)" and e: "ys = pre @ x # post"
      and m: "\<forall>y\<in>set pre. is_mapped s y" "\<not> is_mapped s x"
      by auto
    from True y pv l have "last_heap_block s y = Some (Inr x)"
      by (simp add: last_heap_block_step is_mapped_def)
    with e m True show ?thesis
      by (intro exI [of _ x] exI [of _ "y # pre"] exI [of _ post]) simp
  qed
qed

lemma get_last_spec:
  assumes ok: "heap_ok s L" and hp: "heap_pre s \<noteq> 0" and gl: "get_last s = Inr (x, s1)"
  shows "s1 = s \<and> x \<in> set L \<and> \<not> is_mapped s x \<and>
     (\<exists>A. filter (\<lambda>x. \<not> is_mapped s x) L = A @ [x])"
proof -
  from ok hp have bo: "back_ok s (rev L)" by (simp add: heap_ok_def)
  then have ne: "L \<noteq> []" by auto
  with ok have he: "heap_end s = hd (rev L)" by (simp add: heap_ok_def hd_rev)
  have "\<forall>y\<in>set (rev L). y \<noteq> 0 \<and> blocks s y \<noteq> None"
    using heap_ok_mem_end(2,3) [OF ok] by simp
  from last_heap_block_back [OF bo this] obtain x' pre post where
    l: "last_heap_block s (hd (rev L)) = Some (Inr x')" and e: "rev L = pre @ x' # post"
    and m: "\<forall>y\<in>set pre. is_mapped s y" "\<not> is_mapped s x'"
    by blast
  from gl l he have x: "x' = x" "s1 = s" by (simp_all add: get_last_def)
  from e have "rev (rev L) = rev (pre @ x' # post)" by simp
  then have L: "L = rev post @ x' # rev pre" by simp
  then have "filter (\<lambda>x. \<not> is_mapped s x) L = filter (\<lambda>x. \<not> is_mapped s x) (rev post) @ [x']"
    using m by simp
  with x L m show ?thesis by auto
qed

subsection \<open>A block rewritten in place\<close>

lemma heap_ok_same:
  assumes ok: "heap_ok s L"
    and same: "\<forall>x\<in>set L. blocks s' x \<noteq> None \<and> bsize s' x = bsize s x \<and>
        is_mapped s' x = is_mapped s x \<and>
        map_option next (blocks s' x) = map_option next (blocks s x) \<and>
        map_option prev (blocks s' x) = map_option prev (blocks s x)"
    and glob: "heap_start s' = heap_start s" "heap_end s' = heap_end s" "brk s' = brk s"
      "brk_limit s' = brk_limit s" "mmap_next s' = mmap_next s"
      "heap_pre s' \<noteq> 0 \<longrightarrow> heap_pre s \<noteq> 0"
  shows "heap_ok s' L"
proof -
  from ok have p: "path s (heap_start s) L 0"
    and aa: "ascending s 0 (filter (\<lambda>x. \<not> is_mapped s x) L) (unat (brk s))"
    and am: "ascending s (unat (brk_limit s)) (filter (is_mapped s) L) (unat (mmap_next s))"
    and bk: "heap_pre s \<noteq> 0 \<longrightarrow> back_ok s (rev L)"
    by (simp_all add: heap_ok_def)
  have 1: "path s' (heap_start s') L 0"
    using path_frame [of L s' s "heap_start s" 0] p same glob(1) by simp
  have fa: "filter (\<lambda>x. \<not> is_mapped s' x) L = filter (\<lambda>x. \<not> is_mapped s x) L"
    and fm: "filter (is_mapped s') L = filter (is_mapped s) L"
    using same by (auto intro: filter_cong)
  have 4: "ascending s' 0 (filter (\<lambda>x. \<not> is_mapped s x) L) (unat (brk s))"
    using aa same ascending_frame [of "filter (\<lambda>x. \<not> is_mapped s x) L" s' s] by simp
  have 5: "ascending s' (unat (brk_limit s)) (filter (is_mapped s) L) (unat (mmap_next s))"
    using am same ascending_frame [of "filter (is_mapped s) L" s' s] by simp
  have 7: "heap_pre s' \<noteq> 0 \<longrightarrow> back_ok s' (rev L)"
    using bk glob(6) back_ok_frame [of "rev L" s' s] same by simp
  from ok 1 4 5 7 fa fm glob same show ?thesis by (simp add: heap_ok_def)
qed

lemma heap_ok_resize:
  assumes ok: "heap_ok s L"
    and fa: "filter (\<lambda>x. \<not> is_mapped s x) L = A @ w # A2"
    and hdr: "blocks s w = Some W" "blocks s' w = Some W'" "status W' \<noteq> STATUS_MAPPED"
      "next W' = next W" "prev W' = prev W" "8 dvd unat (size W')"
    and old: "\<forall>x\<in>set L. x \<noteq> w \<longrightarrow> blocks s' x = blocks s x"
    and glob: "heap_start s' = heap_start s" "heap_end s' = heap_end s"
      "brk_limit s' = brk_limit s" "mmap_next s' = mmap_next s"
      "heap_pre s' \<noteq> 0 \<longrightarrow> heap_pre s \<noteq> 0"
    and place: "unat w + 32 + unat (size W') \<le> (case A2 of [] \<Rightarrow> unat (brk s') | y # _ \<Rightarrow> unat y)"
      "unat (brk s) \<le> unat (brk s')" "unat (brk s') \<le> unat (brk_limit s)" "8 dvd unat (brk s')"
  shows "heap_ok s' L"
proof -
  have "w \<in> set (filter (\<lambda>x. \<not> is_mapped s x) L)" unfolding fa by simp
  then have wL: "w \<in> set L" and wm: "\<not> is_mapped s w" by simp_all
  from ok have p: "path s (heap_start s) L 0" and d: "distinct L"
    and aa: "ascending s 0 (filter (\<lambda>x. \<not> is_mapped s x) L) (unat (brk s))"
    and am: "ascending s (unat (brk_limit s)) (filter (is_mapped s) L) (unat (mmap_next s))"
    and al: "\<forall>x\<in>set L. 8 dvd unat x \<and> 8 dvd bsize s x"
    and bk: "heap_pre s \<noteq> 0 \<longrightarrow> back_ok s (rev L)"
    by (simp_all add: heap_ok_def)
  have wm': "\<not> is_mapped s' w" using hdr by (simp add: is_mapped_def)
  have fields: "blocks s' x \<noteq> None \<and> is_mapped s' x = is_mapped s x \<and>
      map_option next (blocks s' x) = map_option next (blocks s x) \<and>
      map_option prev (blocks s' x) = map_option prev (blocks s x)" if "x \<in> set L" for x
  proof (cases "x = w")
    case True
    with hdr wm wm' show ?thesis by simp
  next
    case False
    with old that have "blocks s' x = blocks s x" by simp
    with heap_ok_mem_end(3) [OF ok that] show ?thesis by (simp add: is_mapped_def)
  qed
  have sz: "bsize s' x = bsize s x" if "x \<in> set L" "x \<noteq> w" for x
    using old that by (simp add: bsize_def)
  have 1: "path s' (heap_start s') L 0"
    using path_frame [of L s' s "heap_start s" 0] p fields glob(1) by simp
  have fa': "filter (\<lambda>x. \<not> is_mapped s' x) L = A @ w # A2"
    and fm: "filter (is_mapped s') L = filter (is_mapped s) L"
    using fields fa filter_cong [of L L "\<lambda>x. \<not> is_mapped s' x" "\<lambda>x. \<not> is_mapped s x"]
      filter_cong [of L L "is_mapped s'" "is_mapped s"] by auto
  have dA: "distinct (A @ w # A2)" "set (A @ w # A2) \<subseteq> set L"
    using d fa distinct_filter [of L "\<lambda>x. \<not> is_mapped s x"] filter_is_subset [of "\<lambda>x. \<not> is_mapped s x" L]
    by auto
  from aa fa obtain m where m: "ascending s 0 A m" "m \<le> unat w" "ascending s (bend s w) A2 (unat (brk s))"
    by (auto simp: ascending_append)
  have A': "ascending s' 0 A m"
    using m(1) dA sz ascending_frame [of A s' s 0 m] by auto
  have bw: "bend s' w = unat w + 32 + unat (size W')"
    using hdr(2) by (simp add: bend_def bsize_def)
  have A2': "ascending s' (bend s' w) A2 (unat (brk s'))"
  proof (cases A2)
    case Nil
    with place(1) bw show ?thesis by simp
  next
    case (Cons y rest)
    with m(3) have r: "ascending s (bend s y) rest (unat (brk s))" by simp
    have "\<forall>x\<in>set A2. bsize s' x = bsize s x" using dA sz by auto
    then have "ascending s' (bend s y) rest (unat (brk s))"
      using r Cons ascending_frame [of rest s' s] by simp
    then have "ascending s' (bend s y) rest (unat (brk s'))"
      using place(2) ascending_weaken by blast
    moreover have "bend s' y = bend s y" using dA sz [of y] Cons by (auto simp: bend_def)
    ultimately show ?thesis using Cons place(1) bw by simp
  qed
  have 4: "ascending s' 0 (A @ w # A2) (unat (brk s'))"
    using A' m(2) A2' by (auto simp: ascending_append)
  have "\<forall>x\<in>set (filter (is_mapped s) L). bsize s' x = bsize s x"
    using sz wm by auto
  then have 5: "ascending s' (unat (brk_limit s)) (filter (is_mapped s) L) (unat (mmap_next s))"
    using am ascending_frame [of "filter (is_mapped s) L" s' s] by simp
  have 6: "\<forall>x\<in>set L. 8 dvd unat x \<and> 8 dvd bsize s' x"
  proof
    fix x assume x: "x \<in> set L"
    show "8 dvd unat x \<and> 8 dvd bsize s' x"
    proof (cases "x = w")
      case True
      with al x hdr show ?thesis by (simp add: bsize_def)
    next
      case False
      with al x sz show ?thesis by simp
    qed
  qed
  have 7: "heap_pre s' \<noteq> 0 \<longrightarrow> back_ok s' (rev L)"
    using bk glob(5) back_ok_frame [of "rev L" s' s] fields by simp
  have "unat (brk s) \<noteq> 0" using heap_ok_limits(3) [OF ok] by (simp add: unat_eq_0)
  with place(2) have "unat (brk s') \<noteq> 0" by simp
  then have 8: "brk s' \<noteq> 0" by auto
  from ok 1 4 5 6 7 8 fa' fm glob place show ?thesis by (simp add: heap_ok_def)
qed

subsection \<open>Blocks do not overlap\<close>

lemma ascending_disjoint:
  "ascending s lo xs e \<Longrightarrow> x \<in> set xs \<Longrightarrow> y \<in> set xs \<Longrightarrow> x \<noteq> y \<Longrightarrow>
     bend s x \<le> unat y \<or> bend s y \<le> unat x"
proof (induction xs arbitrary: lo)
  case Nil
  then show ?case by simp
next
  case (Cons z zs)
  from Cons.prems(1) have tl: "ascending s (bend s z) zs e" by simp
  show ?case
  proof (cases "x = z")
    case True
    with Cons.prems have "y \<in> set zs" by auto
    from ascending_mem [OF tl this] True show ?thesis by simp
  next
    case False
    note xz = this
    show ?thesis
    proof (cases "y = z")
      case True
      with Cons.prems xz have "x \<in> set zs" by auto
      from ascending_mem [OF tl this] True show ?thesis by simp
    next
      case False
      with xz Cons.prems have "x \<in> set zs" "y \<in> set zs" by auto
      from Cons.IH [OF tl this Cons.prems(4)] show ?thesis .
    qed
  qed
qed

lemma heap_ok_disjoint:
  assumes ok: "heap_ok s L" and x: "x \<in> set L" and y: "y \<in> set L" and ne: "x \<noteq> y"
  shows "bend s x \<le> unat y \<or> bend s y \<le> unat x"
proof -
  from ok have aa: "ascending s 0 (filter (\<lambda>x. \<not> is_mapped s x) L) (unat (brk s))"
    and am: "ascending s (unat (brk_limit s)) (filter (is_mapped s) L) (unat (mmap_next s))"
    by (simp_all add: heap_ok_def)
  note lim = heap_ok_limits [OF ok]
  show ?thesis
  proof (cases "is_mapped s x")
    case True
    note mx = this
    show ?thesis
    proof (cases "is_mapped s y")
      case True
      with mx x y ascending_disjoint [OF am _ _ ne] show ?thesis by simp
    next
      case False
      with heap_ok_arena_mem [OF ok y] heap_ok_mapped_mem [OF ok x mx] lim show ?thesis by simp
    qed
  next
    case False
    note mx = this
    show ?thesis
    proof (cases "is_mapped s y")
      case True
      with heap_ok_arena_mem [OF ok x mx] heap_ok_mapped_mem [OF ok y] lim show ?thesis by simp
    next
      case False
      with mx x y ascending_disjoint [OF aa _ _ ne] show ?thesis by simp
    qed
  qed
qed

subsection \<open>A block split in two\<close>

lemma back_ok_insert:
  assumes "back_ok s (ys @ w # zs)" "\<not> is_mapped s' f" "distinct ys"
    "\<forall>y\<in>set ys. is_mapped s' y = is_mapped s y"
    "\<forall>y\<in>set ys. y \<noteq> last ys \<longrightarrow> map_option prev (blocks s' y) = map_option prev (blocks s y)"
    "ys \<noteq> [] \<longrightarrow> map_option prev (blocks s' (last ys)) = Some f"
  shows "back_ok s' (ys @ f # zs')"
  using assms
proof (induction ys)
  case Nil
  then show ?case by simp
next
  case (Cons y ys)
  show ?case
  proof (cases "is_mapped s y")
    case False
    with Cons.prems(4) show ?thesis by simp
  next
    case True
    with Cons.prems(1) have pv: "map_option prev (blocks s y) = Some (hd (ys @ w # zs))"
      and bo: "back_ok s (ys @ w # zs)"
      by (cases ys; auto split: option.splits)+
    show ?thesis
    proof (cases ys)
      case Nil
      with Cons.prems(6) have "map_option prev (blocks s' y) = Some f" by simp
      with Nil Cons.prems(2) show ?thesis by (auto split: option.splits)
    next
      case (Cons y' ys')
      with Cons.prems(3) have ne: "y \<noteq> last (y # ys)" by auto
      with Cons.prems(5) have "map_option prev (blocks s' y) = map_option prev (blocks s y)"
        by simp
      with pv Cons have pv': "map_option prev (blocks s' y) = Some y'" by simp
      have "back_ok s' (ys @ f # zs')"
      proof (rule Cons.IH [OF bo Cons.prems(2)])
        show "distinct ys" using Cons.prems(3) by simp
        show "\<forall>y\<in>set ys. is_mapped s' y = is_mapped s y" using Cons.prems(4) by simp
        show "\<forall>z\<in>set ys. z \<noteq> last ys \<longrightarrow>
            map_option prev (blocks s' z) = map_option prev (blocks s z)"
          using Cons.prems(5) Cons by auto
        show "ys \<noteq> [] \<longrightarrow> map_option prev (blocks s' (last ys)) = Some f"
          using Cons.prems(6) Cons by auto
      qed
      with pv' Cons show ?thesis by (auto split: option.splits)
    qed
  qed
qed

lemma heap_ok_split:
  assumes ok: "heap_ok s L" and L: "L = L1 @ w # L2" and wm: "\<not> is_mapped s w"
    and hdr: "blocks s w = Some W" "blocks s' w = Some W1" "status W1 \<noteq> STATUS_MAPPED"
      "next W1 = f" "8 dvd unat (size W1)"
    and fr: "blocks s' f = Some F" "status F \<noteq> STATUS_MAPPED" "next F = next W"
      "8 dvd unat (size F)" "f \<noteq> 0" "8 dvd unat f" "f \<notin> set L"
    and pos: "unat w + 32 + unat (size W1) \<le> unat f" "unat f + 32 + unat (size F) \<le> bend s w"
    and old: "\<forall>x\<in>set L. x \<noteq> w \<and> (L2 = [] \<or> x \<noteq> hd L2) \<longrightarrow> blocks s' x = blocks s x"
      "L2 \<noteq> [] \<longrightarrow> (\<exists>N. blocks s (hd L2) = Some N \<and> blocks s' (hd L2) = Some (N\<lparr>prev := f\<rparr>))"
    and glob: "heap_start s' = heap_start s" "heap_end s' = (if L2 = [] then f else heap_end s)"
      "brk s' = brk s" "brk_limit s' = brk_limit s" "mmap_next s' = mmap_next s"
      "heap_pre s' \<noteq> 0 \<longrightarrow> heap_pre s \<noteq> 0"
  shows "heap_ok s' (L1 @ w # f # L2)"
proof -
  from ok have p: "path s (heap_start s) L 0" and d: "distinct L"
    and he: "heap_end s = (if L = [] then 0 else last L)"
    and aa: "ascending s 0 (filter (\<lambda>x. \<not> is_mapped s x) L) (unat (brk s))"
    and am: "ascending s (unat (brk_limit s)) (filter (is_mapped s) L) (unat (mmap_next s))"
    and al: "\<forall>x\<in>set L. 8 dvd unat x \<and> 8 dvd bsize s x"
      "8 dvd unat (brk s)" "8 dvd unat (mmap_next s)"
    and bk: "heap_pre s \<noteq> 0 \<longrightarrow> back_ok s (rev L)"
    by (simp_all add: heap_ok_def)
  from d L have dw: "w \<notin> set L1" "w \<notin> set L2" "distinct L1" "distinct L2"
    "set L1 \<inter> set L2 = {}" by auto
  have wm': "\<not> is_mapped s' w" and fm': "\<not> is_mapped s' f"
    using hdr fr by (simp_all add: is_mapped_def)
  have other: "blocks s' x \<noteq> None \<and> is_mapped s' x = is_mapped s x \<and> bsize s' x = bsize s x \<and>
      bend s' x = bend s x \<and>
      map_option next (blocks s' x) = map_option next (blocks s x)"
    if "x \<in> set L" "x \<noteq> w" for x
  proof (cases "L2 \<noteq> [] \<and> x = hd L2")
    case True
    with old(2) obtain N where "blocks s x = Some N" "blocks s' x = Some (N\<lparr>prev := f\<rparr>)"
      by auto
    then show ?thesis by (simp add: is_mapped_def bsize_def bend_def)
  next
    case False
    with old(1) that have "blocks s' x = blocks s x" by auto
    with heap_ok_mem_end(3) [OF ok that(1)] show ?thesis
      by (simp add: is_mapped_def bsize_def bend_def)
  qed
  have sub: "set L1 \<subseteq> set L" "set L2 \<subseteq> set L" using L by auto
  have o1: "\<forall>x\<in>set L1. blocks s' x \<noteq> None \<and> is_mapped s' x = is_mapped s x \<and>
      bsize s' x = bsize s x \<and> map_option next (blocks s' x) = map_option next (blocks s x)"
    using other sub dw by auto
  have o2: "\<forall>x\<in>set L2. blocks s' x \<noteq> None \<and> is_mapped s' x = is_mapped s x \<and>
      bsize s' x = bsize s x \<and> map_option next (blocks s' x) = map_option next (blocks s x)"
    using other sub dw by auto
  from p L hdr(1) have p1: "path s (heap_start s) L1 w" and p2: "path s (next W) L2 0"
    by (auto simp: path_append split: option.splits)
  have p1': "path s' (heap_start s) L1 w"
    using path_frame [of L1 s' s "heap_start s" w] p1 o1 by simp
  have p2': "path s' (next W) L2 0"
    using path_frame [of L2 s' s "next W" 0] p2 o2 by simp
  from heap_ok_mem_end(2) [OF ok, of w] L have wnz: "w \<noteq> 0" by simp
  have 1: "path s' (heap_start s') (L1 @ w # f # L2) 0"
    using p1' p2' wnz hdr(2,4) fr(1,3,5) glob(1) by (auto simp: path_append)
  have 2: "distinct (L1 @ w # f # L2)" using d L fr(7) by auto
  have 3: "heap_end s' = (if L1 @ w # f # L2 = [] then 0 else last (L1 @ w # f # L2))"
    using he L glob(2) by auto
  have f1: "filter (\<lambda>x. \<not> is_mapped s' x) L1 = filter (\<lambda>x. \<not> is_mapped s x) L1"
    "filter (is_mapped s') L1 = filter (is_mapped s) L1"
    using o1 by (auto intro: filter_cong)
  have f2: "filter (\<lambda>x. \<not> is_mapped s' x) L2 = filter (\<lambda>x. \<not> is_mapped s x) L2"
    "filter (is_mapped s') L2 = filter (is_mapped s) L2"
    using o2 by (auto intro: filter_cong)
  let ?A1 = "filter (\<lambda>x. \<not> is_mapped s x) L1" and ?A2 = "filter (\<lambda>x. \<not> is_mapped s x) L2"
  from aa L wm obtain m where m: "ascending s 0 ?A1 m" "m \<le> unat w"
    "ascending s (bend s w) ?A2 (unat (brk s))"
    by (auto simp: ascending_append)
  have a1: "ascending s' 0 ?A1 m"
    using m(1) o1 ascending_frame [of ?A1 s' s 0 m] by simp
  have a2: "ascending s' (bend s w) ?A2 (unat (brk s))"
    using m(3) o2 ascending_frame [of ?A2 s' s] by simp
  have bw: "bend s' w = unat w + 32 + unat (size W1)" "bend s' f = unat f + 32 + unat (size F)"
    using hdr(2) fr(1) by (simp_all add: bend_def bsize_def)
  from a2 pos(2) bw have a2': "ascending s' (bend s' f) ?A2 (unat (brk s))"
    using ascending_weaken [of s' "bend s w" ?A2 "unat (brk s)" "bend s' f" "unat (brk s)"] by simp
  have 4: "ascending s' 0 (filter (\<lambda>x. \<not> is_mapped s' x) (L1 @ w # f # L2)) (unat (brk s'))"
    using a1 m(2) a2' pos(1) bw wm' fm' f1 f2 glob(3) by (auto simp: ascending_append)
  have "\<forall>x\<in>set (filter (is_mapped s) L). bsize s' x = bsize s x"
    using other wm by auto
  then have "ascending s' (unat (brk_limit s)) (filter (is_mapped s) L) (unat (mmap_next s))"
    using am ascending_frame [of "filter (is_mapped s) L" s' s] by simp
  then have 5: "ascending s' (unat (brk_limit s')) (filter (is_mapped s') (L1 @ w # f # L2))
      (unat (mmap_next s'))"
    using L wm wm' fm' f1 f2 glob(4,5) by simp
  have 6: "\<forall>x\<in>set (L1 @ w # f # L2). 8 dvd unat x \<and> 8 dvd bsize s' x"
  proof
    fix x assume x: "x \<in> set (L1 @ w # f # L2)"
    then consider "x = w" | "x = f" | "x \<in> set L" "x \<noteq> w" using L by auto
    then show "8 dvd unat x \<and> 8 dvd bsize s' x"
    proof cases
      case 1
      with al(1) L hdr(2,5) show ?thesis by (simp add: bsize_def)
    next
      case 2
      with fr show ?thesis by (simp add: bsize_def)
    next
      case 3
      with al(1) other show ?thesis by simp
    qed
  qed
  have 7: "heap_pre s' \<noteq> 0 \<longrightarrow> back_ok s' (rev (L1 @ w # f # L2))"
  proof
    assume "heap_pre s' \<noteq> 0"
    with glob(6) bk L have bo: "back_ok s (rev L2 @ w # rev L1)" by simp
    have "back_ok s' (rev L2 @ f # (w # rev L1))"
    proof (rule back_ok_insert [OF bo fm'])
      show "distinct (rev L2)" using dw by simp
      show "\<forall>y\<in>set (rev L2). is_mapped s' y = is_mapped s y" using o2 by simp
      show "\<forall>y\<in>set (rev L2). y \<noteq> last (rev L2) \<longrightarrow>
          map_option prev (blocks s' y) = map_option prev (blocks s y)"
      proof (intro ballI impI)
        fix y assume y: "y \<in> set (rev L2)" "y \<noteq> last (rev L2)"
        then have "L2 \<noteq> []" "y \<noteq> hd L2" by (auto simp: last_rev)
        with y old(1) sub dw have "blocks s' y = blocks s y" by auto
        then show "map_option prev (blocks s' y) = map_option prev (blocks s y)" by simp
      qed
      show "rev L2 \<noteq> [] \<longrightarrow> map_option prev (blocks s' (last (rev L2))) = Some f"
        using old(2) by (auto simp: last_rev)
    qed
    then show "back_ok s' (rev (L1 @ w # f # L2))" by simp
  qed
  from ok 1 2 3 4 5 6 7 glob show ?thesis by (simp add: heap_ok_def)
qed

lemma fragment_state:
  assumes "blocks s w = Some W" "w + req \<noteq> w" "next W \<noteq> w + req" "next W \<noteq> w"
    "next W = 0 \<or> blocks s (next W) = Some N" "\<not> overlaps req"
  shows "\<exists>s'. fragment w r req s = Inr ((), s') \<and>
     blocks s' w = Some (W\<lparr>next := w + req, size := req - ALIGN META_SIZE\<rparr>) \<and>
     blocks s' (w + req) =
       Some \<lparr>size = r - ALIGN META_SIZE, status = STATUS_FREE, prev = w, next = next W\<rparr> \<and>
     (next W \<noteq> 0 \<longrightarrow> blocks s' (next W) = Some (N\<lparr>prev := w + req\<rparr>)) \<and>
     (\<forall>x. x \<noteq> w \<and> x \<noteq> w + req \<and> x \<noteq> next W \<longrightarrow> blocks s' x = blocks s x) \<and>
     heap_start s' = heap_start s \<and>
     heap_end s' = (if w = heap_end s then w + req else heap_end s) \<and>
     brk s' = brk s \<and> brk_limit s' = brk_limit s \<and> mmap_next s' = mmap_next s \<and>
     heap_pre s' = heap_pre s \<and> mem s' = mem s"
  using assms
  by (auto simp: fragment_unfold bnd_def rd_def upd_def put_def Let_def)

subsection \<open>The placement search on a well-formed heap\<close>

lemma find_fit_loop_path:
  assumes "path s a xs 0"
  shows "\<exists>w r. find_fit_loop s requested a best m = Some (Inr (w, r)) \<and>
     ((w = best \<and> r = m \<and>
        (\<forall>x\<in>set xs. \<forall>b. blocks s x = Some b \<and> qualifies requested b \<longrightarrow> m \<le> leftover requested b))
      \<or> (w \<in> set xs \<and> (\<exists>b. blocks s w = Some b \<and> qualifies requested b \<and> r = leftover requested b)))"
  using assms
proof (induction xs arbitrary: a best m)
  case Nil
  then show ?case by (simp add: find_fit_loop_null)
next
  case (Cons x xs)
  then obtain b where a: "a = x" "x \<noteq> 0" "blocks s x = Some b" and p: "path s (next b) xs 0"
    by (auto split: option.splits)
  note step = find_fit_loop_step [OF a(2) a(3), of requested]
  show ?case
  proof (cases "qualifies requested b \<and> leftover requested b < m")
    case better: True
    show ?thesis
    proof (cases "leftover requested b = 0")
      case True
      with better a show ?thesis by (simp add: step)
    next
      case False
      from Cons.IH [OF p, of x "leftover requested b"] obtain w r where
        l: "find_fit_loop s requested (next b) x (leftover requested b) = Some (Inr (w, r))"
        and alt: "(w = x \<and> r = leftover requested b) \<or>
          (w \<in> set xs \<and> (\<exists>b. blocks s w = Some b \<and> qualifies requested b \<and> r = leftover requested b))"
        by blast
      from better False l a have "find_fit_loop s requested a best m = Some (Inr (w, r))"
        by (simp add: step)
      with alt better a show ?thesis by auto
    qed
  next
    case worse: False
    from Cons.IH [OF p, of best m] obtain w r where
      l: "find_fit_loop s requested (next b) best m = Some (Inr (w, r))"
      and alt: "(w = best \<and> r = m \<and>
        (\<forall>x\<in>set xs. \<forall>b. blocks s x = Some b \<and> qualifies requested b \<longrightarrow> m \<le> leftover requested b))
      \<or> (w \<in> set xs \<and> (\<exists>b. blocks s w = Some b \<and> qualifies requested b \<and> r = leftover requested b))"
      by blast
    from l a have res: "find_fit_loop s requested a best m = Some (Inr (w, r))"
      by (simp only: step if_not_P [OF worse])
    from worse have "qualifies requested b \<longrightarrow> m \<le> leftover requested b" by auto
    with alt res a show ?thesis by auto
  qed
qed

lemma unat_sub_le:
  fixes a b :: size_t
  assumes "unat b \<le> unat a"
  shows "unat (a - b) = unat a - unat b"
  using assms by (simp add: unat_sub word_le_nat_alt)

lemma cap_facts:
  fixes sz requested :: size_t
  assumes "unat w + 32 + unat sz < 2 ^ 64"
  shows "unat (META_SIZE + sz) = 32 + unat sz"
    "(requested \<le> META_SIZE + sz) = (unat requested \<le> 32 + unat sz)"
    "requested \<le> META_SIZE + sz \<Longrightarrow> unat (META_SIZE + sz - requested) = 32 + unat sz - unat requested"
    "requested \<le> META_SIZE + sz \<Longrightarrow> unat ((w::addr) + requested) = unat w + unat requested"
proof -
  from assms have "unat META_SIZE + unat sz < 2 ^ 64" by (simp add: META_SIZE_def)
  from unat_add_nowrap [OF this] show c: "unat (META_SIZE + sz) = 32 + unat sz"
    by (simp add: META_SIZE_def)
  then show q: "(requested \<le> META_SIZE + sz) = (unat requested \<le> 32 + unat sz)"
    by (simp add: word_le_nat_alt)
  show "unat (META_SIZE + sz - requested) = 32 + unat sz - unat requested"
    if "requested \<le> META_SIZE + sz"
    using that c q unat_sub_le [of requested "META_SIZE + sz"] by simp
  show "unat (w + requested) = unat w + unat requested" if "requested \<le> META_SIZE + sz"
  proof (rule unat_add_nowrap)
    from that q have "unat requested \<le> 32 + unat sz" by simp
    with assms show "unat w + unat requested < 2 ^ 64" by simp
  qed
qed

lemma unat_lt64: "unat (x :: size_t) < 2 ^ 64"
  using unsigned_less [of x] by simp

lemma path_next_hd:
  assumes "path s a (L1 @ w # L2) 0" "blocks s w = Some W"
  shows "next W = (if L2 = [] then 0 else hd L2)" "L2 \<noteq> [] \<longrightarrow> blocks s (hd L2) \<noteq> None"
  using assms by (cases L2; auto simp: path_append split: option.splits)+

lemma find_fit_ok:
  assumes ok: "heap_ok s L" and rq: "32 \<le> unat requested" "8 dvd unat requested"
    and ff: "find_fit requested s = Inr (w, s1)"
  shows "(w = 0 \<and> s1 = s \<and> (\<forall>x\<in>set L. \<forall>b. blocks s x = Some b \<longrightarrow> \<not> qualifies requested b)) \<or>
     (\<exists>L' W1. heap_ok s1 L' \<and> set L \<subseteq> set L' \<and> w \<in> set L' \<and> blocks s1 w = Some W1 \<and>
        status W1 = STATUS_FREE \<and> unat requested \<le> 32 + unat (size W1) \<and>
        heap_pre s1 = heap_pre s \<and> brk s1 = brk s \<and> brk_limit s1 = brk_limit s \<and>
        mmap_next s1 = mmap_next s)"
proof -
  from rq have rnz: "requested \<noteq> 0" by auto
  from ok have p: "path s (heap_start s) L 0" by (simp add: heap_ok_def)
  from find_fit_loop_path [OF p, of requested 0 "- 1"] obtain v r where
    loop: "find_fit_loop s requested (heap_start s) 0 (- 1) = Some (Inr (v, r))"
    and alt: "(v = 0 \<and> r = - 1 \<and>
        (\<forall>x\<in>set L. \<forall>b. blocks s x = Some b \<and> qualifies requested b \<longrightarrow> - 1 \<le> leftover requested b))
      \<or> (v \<in> set L \<and> (\<exists>b. blocks s v = Some b \<and> qualifies requested b \<and> r = leftover requested b))"
    by blast
  from alt show ?thesis
  proof
    assume h: "v = 0 \<and> r = - 1 \<and>
        (\<forall>x\<in>set L. \<forall>b. blocks s x = Some b \<and> qualifies requested b \<longrightarrow> - 1 \<le> leftover requested b)"
    have none: "\<forall>x\<in>set L. \<forall>b. blocks s x = Some b \<longrightarrow> \<not> qualifies requested b"
    proof (intro ballI allI impI notI)
      fix x b assume "x \<in> set L" "blocks s x = Some b" and q: "qualifies requested b"
      with h have "- 1 \<le> leftover requested b" by blast
      then have "leftover requested b = - 1" by (simp add: word_order.extremum_unique)
      with leftover_not_max [OF q rnz] show False by simp
    qed
    from loop h ff have "w = 0" "s1 = s" by (simp_all add: find_fit_def)
    with none show ?thesis by blast
  next
    assume "v \<in> set L \<and> (\<exists>b. blocks s v = Some b \<and> qualifies requested b \<and> r = leftover requested b)"
    then obtain W where vL: "v \<in> set L" and W: "blocks s v = Some W"
      and q: "qualifies requested W" and r: "r = leftover requested W"
      by blast
    from heap_ok_mem_end [OF ok vL] have vnz: "v \<noteq> 0" and v8: "8 dvd unat v"
      and e: "bend s v \<le> unat (mmap_next s)" and W8: "8 dvd unat (size W)"
      using W by (simp_all add: bsize_def)
    have bnd64: "unat v + 32 + unat (size W) < 2 ^ 64"
      using e W unat_lt64 [of "mmap_next s"] by (simp add: bend_def bsize_def)
    note cf = cap_facts [OF bnd64]
    from q have st: "status W = STATUS_FREE" and le: "requested \<le> META_SIZE + size W"
      by (simp_all add: qualifies_def)
    from le cf have le': "unat requested \<le> 32 + unat (size W)" by simp
    from cf(3) [OF le] r have ur: "unat r = 32 + unat (size W) - unat requested"
      by (simp add: leftover_def)
    from st W have nm: "\<not> is_mapped s v" by (simp add: is_mapped_def)
    from loop vnz ff have wv: "w = v"
      by (auto simp: find_fit_def bnd_def split: if_splits sum.splits)
    show ?thesis
    proof (cases "ALIGN META_SIZE + 1 \<le> r")
      case False
      with loop vnz ff have "s1 = s" by (simp add: find_fit_def bnd_def)
      with ok vL W st le' wv show ?thesis by blast
    next
      case True
      then have r33: "33 \<le> unat r" by (simp add: align_meta word_le_nat_alt)
      from loop vnz ff True have fr: "fragment v r requested s = Inr ((), s1)"
        by (auto simp: find_fit_def bnd_def split: sum.splits)
      from vL obtain L1 L2 where L: "L = L1 @ v # L2" by (auto simp: in_set_conv_decomp)
      from p L have pL: "path s (heap_start s) (L1 @ v # L2) 0" by simp
      note nh = path_next_hd [OF pL W]
      let ?f = "v + requested"
      have uf: "unat ?f = unat v + unat requested" using cf(4) [OF le] .
      have fnz: "?f \<noteq> 0" using uf rq by (auto simp: unat_eq_0)
      have fL: "?f \<notin> set L"
      proof
        assume fin: "?f \<in> set L"
        have "?f \<noteq> v" using uf rq by auto
        from heap_ok_disjoint [OF ok fin vL this] uf r33 ur rq W
        show False by (simp add: bend_def bsize_def)
      qed
      have nW: "next W \<noteq> ?f" "next W \<noteq> v"
      proof -
        from nh(1) fL L fnz show "next W \<noteq> ?f" by (cases L2) auto
        from ok L have "distinct (L1 @ v # L2)" by (simp add: heap_ok_def)
        with nh(1) vnz show "next W \<noteq> v" by (cases L2) auto
      qed
      have "?f \<noteq> v" using uf rq by auto
      then have fv: "v + requested \<noteq> v" .
      obtain N where N: "next W = 0 \<or> blocks s (next W) = Some N"
        using nh by (cases L2) auto
      have nov: "\<not> overlaps requested"
        using rq(1) le' bnd64 ur r33 by (intro not_overlaps) simp_all
      from fragment_state [OF W fv nW N nov, of r] fr
      have s1: "blocks s1 v = Some (W\<lparr>next := ?f, size := requested - ALIGN META_SIZE\<rparr>)"
        "blocks s1 ?f = Some \<lparr>size = r - ALIGN META_SIZE, status = STATUS_FREE, prev = v, next = next W\<rparr>"
        "next W \<noteq> 0 \<longrightarrow> blocks s1 (next W) = Some (N\<lparr>prev := ?f\<rparr>)"
        "\<forall>x. x \<noteq> v \<and> x \<noteq> ?f \<and> x \<noteq> next W \<longrightarrow> blocks s1 x = blocks s x"
        "heap_start s1 = heap_start s" "heap_end s1 = (if v = heap_end s then ?f else heap_end s)"
        "brk s1 = brk s" "brk_limit s1 = brk_limit s" "mmap_next s1 = mmap_next s"
        "heap_pre s1 = heap_pre s"
        by auto
      have usz: "unat (requested - ALIGN META_SIZE) = unat requested - 32"
        using rq unat_sub_le [of 32 requested] by (simp add: align_meta)
      have urs: "unat (r - ALIGN META_SIZE) = unat r - 32"
        using r33 unat_sub_le [of 32 r] by (simp add: align_meta)
      have he: "heap_end s = last L" using ok L by (simp add: heap_ok_def)
      have hv: "(v = heap_end s) = (L2 = [])"
      proof
        assume "v = heap_end s"
        with he L have "v = last (L1 @ v # L2)" by simp
        moreover from ok L have "distinct (L1 @ v # L2)" by (simp add: heap_ok_def)
        ultimately show "L2 = []" by (cases L2 rule: rev_cases) auto
      next
        assume "L2 = []"
        with he L show "v = heap_end s" by simp
      qed
      have "heap_ok s1 (L1 @ v # ?f # L2)"
      proof (rule heap_ok_split [OF ok L nm W s1(1) _ _ _ s1(2)])
        show "status (W\<lparr>next := ?f, size := requested - ALIGN META_SIZE\<rparr>) \<noteq> STATUS_MAPPED"
          using st by simp
        show "next (W\<lparr>next := ?f, size := requested - ALIGN META_SIZE\<rparr>) = ?f" by simp
        show "8 dvd unat (size (W\<lparr>next := ?f, size := requested - ALIGN META_SIZE\<rparr>))"
          using usz rq by (simp add: dvd_diff_nat)
        show "status \<lparr>size = r - ALIGN META_SIZE, status = STATUS_FREE, prev = v, next = next W\<rparr> \<noteq> STATUS_MAPPED"
          by simp
        show "next \<lparr>size = r - ALIGN META_SIZE, status = STATUS_FREE, prev = v, next = next W\<rparr> = next W"
          by simp
        show "8 dvd unat (size \<lparr>size = r - ALIGN META_SIZE, status = STATUS_FREE, prev = v, next = next W\<rparr>)"
          using urs ur r33 rq W8 le' by (simp add: dvd_diff_nat)
        show "?f \<noteq> 0" by (rule fnz)
        show "8 dvd unat ?f" using uf v8 rq by simp
        show "?f \<notin> set L" by (rule fL)
        show "unat v + 32 + unat (size (W\<lparr>next := ?f, size := requested - ALIGN META_SIZE\<rparr>)) \<le> unat ?f"
          using usz uf rq by simp
        show "unat ?f + 32 + unat (size \<lparr>size = r - ALIGN META_SIZE, status = STATUS_FREE, prev = v, next = next W\<rparr>)
            \<le> bend s v"
          using urs ur uf r33 le' W by (simp add: bend_def bsize_def)
        show "\<forall>x\<in>set L. x \<noteq> v \<and> (L2 = [] \<or> x \<noteq> hd L2) \<longrightarrow> blocks s1 x = blocks s x"
        proof (intro ballI impI)
          fix x assume x: "x \<in> set L" "x \<noteq> v \<and> (L2 = [] \<or> x \<noteq> hd L2)"
          with fL have "x \<noteq> ?f" by auto
          moreover from x nh(1) heap_ok_mem_end(2) [OF ok x(1)] have "x \<noteq> next W" by auto
          ultimately show "blocks s1 x = blocks s x" using s1(4) x by simp
        qed
        show "L2 \<noteq> [] \<longrightarrow> (\<exists>N. blocks s (hd L2) = Some N \<and> blocks s1 (hd L2) = Some (N\<lparr>prev := ?f\<rparr>))"
        proof
          assume ne: "L2 \<noteq> []"
          with nh(1) have nx: "next W = hd L2" by simp
          from ne L have "hd L2 \<in> set L" by (cases L2) auto
          from heap_ok_mem_end(2) [OF ok this] nx have "next W \<noteq> 0" by simp
          with N s1(3) nx show "\<exists>N. blocks s (hd L2) = Some N \<and> blocks s1 (hd L2) = Some (N\<lparr>prev := ?f\<rparr>)"
            by auto
        qed
        show "heap_start s1 = heap_start s" by (rule s1(5))
        show "heap_end s1 = (if L2 = [] then ?f else heap_end s)" using s1(6) hv by simp
        show "brk s1 = brk s" by (rule s1(7))
        show "brk_limit s1 = brk_limit s" by (rule s1(8))
        show "mmap_next s1 = mmap_next s" by (rule s1(9))
        show "heap_pre s1 \<noteq> 0 \<longrightarrow> heap_pre s \<noteq> 0" using s1(10) by simp
      qed
      moreover have "unat requested \<le> 32 + unat (size (W\<lparr>next := ?f, size := requested - ALIGN META_SIZE\<rparr>))"
        using usz rq by simp
      moreover have "set L \<subseteq> set (L1 @ v # ?f # L2)" unfolding L by auto
      ultimately show ?thesis using s1 st wv
        by (intro disjI2 exI [of _ "L1 @ v # ?f # L2"]
            exI [of _ "W\<lparr>next := ?f, size := requested - ALIGN META_SIZE\<rparr>"]) simp
    qed
  qed
qed

subsection \<open>The paths of os_malloc\<close>

lemma allocated_atI:
  assumes ok: "heap_ok s L" and x: "x \<in> set L" and p: "p = x + META_SIZE"
    and b: "blocks s x = Some b" "status b \<noteq> STATUS_FREE" "n \<le> size b"
  shows "allocated_at s L p n"
proof -
  have px: "p - META_SIZE = x" using p by simp
  from heap_ok_mem_end [OF ok x] have e: "bend s x \<le> unat (mmap_next s)" and x8: "8 dvd unat x"
    by simp_all
  then have "unat x + unat META_SIZE < 2 ^ 64"
    using unat_lt64 [of "mmap_next s"] by (simp add: bend_def META_SIZE_def)
  from unat_add_nowrap [OF this] p have up: "unat p = unat x + 32" by (simp add: META_SIZE_def)
  have "\<forall>y\<in>set L. y \<noteq> x \<longrightarrow> bend s y \<le> unat p \<or> unat p + bsize s x \<le> unat y"
  proof (intro ballI impI)
    fix y assume "y \<in> set L" "y \<noteq> x"
    from heap_ok_disjoint [OF ok this(1) x this(2)] up
    show "bend s y \<le> unat p \<or> unat p + bsize s x \<le> unat y"
      by (auto simp: bend_def)
  qed
  with x up x8 b px show ?thesis by (simp add: allocated_at_def)
qed

lemma align_facts:
  assumes "n \<noteq> 0" "unat n \<le> 2 ^ 64 - 40"
  shows "unat (ALIGN META_SIZE + ALIGN n) = 32 + unat (ALIGN n)" "n \<le> ALIGN n"
    "8 dvd unat (ALIGN n)" "8 \<le> unat (ALIGN n)" "unat (ALIGN n) \<le> 2 ^ 64 - 40"
proof -
  from assms(2) have nw: "unat n + 7 < 2 ^ 64" by simp
  note u = ALIGN_unat [OF nw]
  from assms(1) have "unat n \<noteq> 0" by (simp add: unat_eq_0)
  with u show "8 \<le> unat (ALIGN n)" by simp
  from u assms(2) show le: "unat (ALIGN n) \<le> 2 ^ 64 - 40" by simp
  from u show "8 dvd unat (ALIGN n)" by simp
  from u have "unat n \<le> unat (ALIGN n)" by simp
  then show "n \<le> ALIGN n" by (simp add: word_le_nat_alt)
  from le have "unat (ALIGN META_SIZE) + unat (ALIGN n) < 2 ^ 64" by (simp add: align_meta)
  from unat_add_nowrap [OF this] show "unat (ALIGN META_SIZE + ALIGN n) = 32 + unat (ALIGN n)"
    by (simp add: align_meta)
qed

lemma malloc_fit:
  assumes ok: "heap_ok s L" and n: "n \<noteq> 0" "unat n \<le> 2 ^ 64 - 40"
    and hp: "heap_pre s \<noteq> 0"
    and ff: "find_fit (ALIGN META_SIZE + ALIGN n) s = Inr (w, s1)" "w \<noteq> 0"
    and ret: "os_malloc n s = Inr (p, s')"
  shows "\<exists>L'. heap_ok s' L' \<and> set L \<subseteq> set L' \<and> allocated_at s' L' p n"
proof -
  note af = align_facts [OF n]
  have rq: "32 \<le> unat (ALIGN META_SIZE + ALIGN n)" "8 dvd unat (ALIGN META_SIZE + ALIGN n)"
    using af by simp_all
  from find_fit_ok [OF ok rq ff(1)] ff(2) obtain L' W1 where
    ok1: "heap_ok s1 L'" and sub: "set L \<subseteq> set L'"
    and w: "w \<in> set L'" "blocks s1 w = Some W1" "status W1 = STATUS_FREE"
    and cap: "unat (ALIGN META_SIZE + ALIGN n) \<le> 32 + unat (size W1)"
    by auto
  from ret n hp ff w have p: "p = w + META_SIZE"
    and s': "s' = s1\<lparr>blocks := (blocks s1)(w \<mapsto> W1\<lparr>status := STATUS_ALLOC\<rparr>)\<rparr>"
    by (auto simp: os_malloc_def Let_def bnd_def upd_def)
  have "heap_ok s' L'"
  proof (rule heap_ok_same [OF ok1])
    show "\<forall>x\<in>set L'. blocks s' x \<noteq> None \<and> bsize s' x = bsize s1 x \<and>
        is_mapped s' x = is_mapped s1 x \<and>
        map_option next (blocks s' x) = map_option next (blocks s1 x) \<and>
        map_option prev (blocks s' x) = map_option prev (blocks s1 x)"
      using heap_ok_mem_end(3) [OF ok1] w s' by (auto simp: bsize_def is_mapped_def)
  qed (simp_all add: s')
  moreover have "n \<le> size W1"
  proof -
    from cap af have "unat (ALIGN n) \<le> unat (size W1)" by simp
    with af(2) show ?thesis by (simp add: word_le_nat_alt)
  qed
  then have "allocated_at s' L' p n"
    using allocated_atI [OF calculation w(1) p, of "W1\<lparr>status := STATUS_ALLOC\<rparr>" n] s'
    by simp
  ultimately show ?thesis using sub by blast
qed

lemma malloc_expand:
  assumes ok: "heap_ok s L" and n: "n \<noteq> 0" "unat n \<le> 2 ^ 64 - 40"
    and hp: "heap_pre s \<noteq> 0"
    and ff: "find_fit (ALIGN META_SIZE + ALIGN n) s = Inr (0, s1)"
    and small: "\<not> ALIGN META_SIZE + ALIGN n > MMAP_THRESHOLD"
    and gl: "get_last s = Inr (x, s2)" "blocks s x = Some X" "status X = STATUS_FREE"
    and ret: "os_malloc n s = Inr (p, s')"
  shows "\<exists>L'. heap_ok s' L' \<and> set L \<subseteq> set L' \<and> allocated_at s' L' p n"
proof -
  note af = align_facts [OF n]
  have rq: "32 \<le> unat (ALIGN META_SIZE + ALIGN n)" "8 dvd unat (ALIGN META_SIZE + ALIGN n)"
    using af by simp_all
  from find_fit_ok [OF ok rq ff] have s1: "s1 = s"
    and nq: "\<forall>x\<in>set L. \<forall>b. blocks s x = Some b \<longrightarrow> \<not> qualifies (ALIGN META_SIZE + ALIGN n) b"
    using heap_ok_mem_end(2) [OF _ _] by auto
  from get_last_spec [OF ok hp gl(1)] obtain A where s2: "s2 = s" and x: "x \<in> set L"
    "\<not> is_mapped s x" and fa: "filter (\<lambda>x. \<not> is_mapped s x) L = A @ [x]"
    by blast
  note me = heap_ok_mem_end [OF ok x(1)]
  have bnd64: "unat x + 32 + unat (size X) < 2 ^ 64"
    using me(1) gl(2) unat_lt64 [of "mmap_next s"] by (simp add: bend_def bsize_def)
  note cf = cap_facts [OF bnd64]
  from nq x(1) gl(2,3) have "\<not> ALIGN META_SIZE + ALIGN n \<le> META_SIZE + size X"
    by (auto simp: qualifies_def)
  with cf(2) af(1) have lt: "unat (size X) < unat (ALIGN n)" by simp
  then have df: "unat (ALIGN n - size X) = unat (ALIGN n) - unat (size X)"
    by (simp add: unat_sub_le)
  from ret n hp ff small gl s1 s2 me(2) have p: "p = x + META_SIZE"
    and s': "s' = s\<lparr>brk := brk s + (ALIGN n - size X),
        blocks := (blocks s)(x \<mapsto> X\<lparr>size := ALIGN n, status := STATUS_ALLOC\<rparr>)\<rparr>"
    and sb: "unat (brk s) + unat (ALIGN n - size X) \<le> unat (brk_limit s)"
    by (auto simp: os_malloc_def Let_def bnd_def upd_def rd_def sbrk_def split: if_splits)
  from sb unat_lt64 [of "brk_limit s"] have "unat (brk s) + unat (ALIGN n - size X) < 2 ^ 64"
    by simp
  from unat_add_nowrap [OF this] s'
  have b': "unat (brk s') = unat (brk s) + (unat (ALIGN n) - unat (size X))"
    by (simp add: df)
  from heap_ok_arena_mem [OF ok x] gl(2)
  have be: "unat x + 32 + unat (size X) \<le> unat (brk s)" by (simp add: bend_def bsize_def)
  have b8: "8 dvd unat (brk s)" using ok by (simp add: heap_ok_def)
  have x8: "8 dvd unat (size X)" using me(5) gl(2) by (simp add: bsize_def)
  have ok': "heap_ok s' L"
  proof (rule heap_ok_resize [OF ok fa gl(2)])
    show "blocks s' x = Some (X\<lparr>size := ALIGN n, status := STATUS_ALLOC\<rparr>)" by (simp add: s')
    show "8 dvd unat (size (X\<lparr>size := ALIGN n, status := STATUS_ALLOC\<rparr>))" using af by simp
    show "\<forall>y\<in>set L. y \<noteq> x \<longrightarrow> blocks s' y = blocks s y" by (simp add: s')
    show "unat x + 32 + unat (size (X\<lparr>size := ALIGN n, status := STATUS_ALLOC\<rparr>))
        \<le> (case [] of [] \<Rightarrow> unat (brk s') | y # _ \<Rightarrow> unat y)"
      using be b' lt by simp
    show "unat (brk s) \<le> unat (brk s')" using b' by simp
    show "unat (brk s') \<le> unat (brk_limit s)" using b' sb df by simp
    show "8 dvd unat (brk s')" using b' b8 x8 af(3) lt by (simp add: dvd_diff_nat)
  qed (simp_all add: s')
  have "allocated_at s' L p n"
    using allocated_atI [OF ok' x(1) p, of "X\<lparr>size := ALIGN n, status := STATUS_ALLOC\<rparr>" n] s' af(2)
    by simp
  with ok' show ?thesis by (intro exI conjI) auto
qed

lemma heap_ok_last:
  assumes ok: "heap_ok s L"
  shows "L = [] \<Longrightarrow> heap_start s = 0" "L \<noteq> [] \<Longrightarrow> heap_start s \<noteq> 0"
    "L \<noteq> [] \<Longrightarrow> heap_end s = last L" "L \<noteq> [] \<Longrightarrow> heap_end s \<in> set L"
    "heap_pre s \<noteq> 0 \<Longrightarrow> L \<noteq> []"
proof -
  from ok have p: "path s (heap_start s) L 0" and e: "heap_end s = (if L = [] then 0 else last L)"
    and b: "heap_pre s \<noteq> 0 \<longrightarrow> back_ok s (rev L)"
    by (simp_all add: heap_ok_def)
  from p show "L = [] \<Longrightarrow> heap_start s = 0" by simp
  from p show "L \<noteq> [] \<Longrightarrow> heap_start s \<noteq> 0" by (cases L) auto
  from e show "L \<noteq> [] \<Longrightarrow> heap_end s = last L" by simp
  from e show "L \<noteq> [] \<Longrightarrow> heap_end s \<in> set L" by simp
  from b show "heap_pre s \<noteq> 0 \<Longrightarrow> L \<noteq> []" by auto
qed

lemma unat_add_of_nat:
  fixes a :: size_t
  assumes "unat a + k < 2 ^ 64"
  shows "unat (a + word_of_nat k) = unat a + k"
proof -
  from assms have "k < 2 ^ LENGTH(64)" by simp
  then have k: "unat (word_of_nat k :: size_t) = k"
    by (simp add: unsigned_of_nat take_bit_nat_eq_self)
  with assms have "unat a + unat (word_of_nat k :: size_t) < 2 ^ 64" by simp
  from unat_add_nowrap [OF this] k show ?thesis by simp
qed

lemma malloc_map_state:
  assumes big: "ALIGN META_SIZE + ALIGN n > MMAP_THRESHOLD" and n0: "n \<noteq> 0"
    and ffz: "heap_pre s \<noteq> 0 \<longrightarrow> find_fit (ALIGN META_SIZE + ALIGN n) s = Inr (0, s)"
    and he: "heap_start s \<noteq> 0 \<longrightarrow> heap_end s \<noteq> mmap_next s \<and> blocks s (heap_end s) = Some E"
    and hs: "heap_pre s \<noteq> 0 \<longrightarrow> heap_start s \<noteq> 0"
    and ret: "os_malloc n s = Inr (p, s')"
  shows "p = mmap_next s + META_SIZE \<and>
     unat (mmap_next s) + page_round (ALIGN META_SIZE + ALIGN n) < 2 ^ 64 \<and>
     (\<exists>B. blocks s' (mmap_next s) = Some B \<and> size B = ALIGN n \<and> status B = STATUS_MAPPED \<and>
        next B = 0 \<and> (heap_pre s \<noteq> 0 \<longrightarrow> prev B = heap_end s)) \<and>
     (heap_start s \<noteq> 0 \<longrightarrow> blocks s' (heap_end s) = Some (E\<lparr>next := mmap_next s\<rparr>)) \<and>
     (\<forall>y. y \<noteq> mmap_next s \<and> y \<noteq> heap_end s \<longrightarrow> blocks s' y = blocks s y) \<and>
     heap_start s' = (if heap_start s = 0 then mmap_next s else heap_start s) \<and>
     heap_end s' = mmap_next s \<and> brk s' = brk s \<and> brk_limit s' = brk_limit s \<and>
     mmap_next s' = mmap_next s + word_of_nat (page_round (ALIGN META_SIZE + ALIGN n)) \<and>
     heap_pre s' = heap_pre s"
  using assms
  by (cases "heap_pre s = 0"; cases "heap_start s = 0")
    (auto simp: os_malloc_def initialise_heap_def mmap_alloc_def mmap_def put_def upd_def rd_def
      bnd_def Let_def align_meta split: if_splits)

lemma page_round_facts: "unat r \<le> page_round r" "8 dvd page_round r"
proof -
  show "unat r \<le> page_round r" unfolding page_round_def by arith
  have "4096 dvd page_round r" by (simp add: page_round_def)
  moreover have "(8::nat) dvd 4096" by simp
  ultimately show "8 dvd page_round r" by (rule dvd_trans [rotated])
qed

lemma malloc_map:
  assumes ok: "heap_ok s L" and n: "n \<noteq> 0" "unat n \<le> 2 ^ 64 - 40"
    and big: "ALIGN META_SIZE + ALIGN n > MMAP_THRESHOLD"
    and ffz: "heap_pre s \<noteq> 0 \<longrightarrow> find_fit (ALIGN META_SIZE + ALIGN n) s = Inr (0, s)"
    and ret: "os_malloc n s = Inr (p, s')"
  shows "\<exists>L'. heap_ok s' L' \<and> set L \<subseteq> set L' \<and> allocated_at s' L' p n"
proof -
  note af = align_facts [OF n]
  note hl = heap_ok_last [OF ok]
  let ?new = "mmap_next s"
  let ?req = "ALIGN META_SIZE + ALIGN n"
  have "\<exists>E. heap_start s \<noteq> 0 \<longrightarrow> heap_end s \<noteq> ?new \<and> blocks s (heap_end s) = Some E"
  proof (cases "L = []")
    case True
    with hl(1) show ?thesis by simp
  next
    case False
    from hl(4) [OF False] heap_ok_fresh_map [OF ok] heap_ok_mem_end(3) [OF ok]
    show ?thesis by auto
  qed
  then obtain E where he: "heap_start s \<noteq> 0 \<longrightarrow> heap_end s \<noteq> ?new \<and> blocks s (heap_end s) = Some E"
    by blast
  have hs: "heap_pre s \<noteq> 0 \<longrightarrow> heap_start s \<noteq> 0" using hl(2,5) by blast
  from malloc_map_state [OF big n(1) ffz he hs ret] obtain B where
    p: "p = ?new + META_SIZE" and nw: "unat ?new + page_round ?req < 2 ^ 64"
    and B: "blocks s' ?new = Some B" "size B = ALIGN n" "status B = STATUS_MAPPED" "next B = 0"
      "heap_pre s \<noteq> 0 \<longrightarrow> prev B = heap_end s"
    and E': "heap_start s \<noteq> 0 \<longrightarrow> blocks s' (heap_end s) = Some (E\<lparr>next := ?new\<rparr>)"
    and fr: "\<forall>y. y \<noteq> ?new \<and> y \<noteq> heap_end s \<longrightarrow> blocks s' y = blocks s y"
    and g: "heap_start s' = (if heap_start s = 0 then ?new else heap_start s)"
      "heap_end s' = ?new" "brk s' = brk s" "brk_limit s' = brk_limit s"
      "mmap_next s' = ?new + word_of_nat (page_round ?req)" "heap_pre s' = heap_pre s"
    by blast
  have m': "unat (mmap_next s') = unat ?new + page_round ?req"
    using unat_add_of_nat [OF nw] g(5) by simp
  have m8: "8 dvd unat ?new" using ok by (simp add: heap_ok_def)
  have ok': "heap_ok s' (L @ [?new])"
  proof (rule heap_ok_append [OF ok _ _ _ B(1) B(4)])
    show "?new \<notin> set L" using heap_ok_fresh_map [OF ok] by blast
    show "?new \<noteq> 0" by (rule heap_ok_limits(4) [OF ok])
    show "8 dvd unat ?new" by (rule m8)
    show "8 dvd unat (size B)" using B(2) af by simp
    show "\<forall>x\<in>set L. x \<noteq> last L \<longrightarrow> blocks s' x = blocks s x"
      using fr heap_ok_fresh_map [OF ok] hl(3) by (cases "L = []") auto
    show "L \<noteq> [] \<longrightarrow> (\<exists>E. blocks s (last L) = Some E \<and> blocks s' (last L) = Some (E\<lparr>next := ?new\<rparr>))"
      using he E' hl(2,3) by auto
    show "heap_start s' = (if L = [] then ?new else heap_start s)"
      using g(1) hl(1,2) by (cases "L = []") simp_all
    show "heap_end s' = ?new" by (rule g(2))
    show "brk_limit s' = brk_limit s" by (rule g(4))
    show "if status B = STATUS_MAPPED
       then brk s' = brk s \<and> unat (mmap_next s) \<le> unat ?new \<and>
            unat ?new + 32 + unat (size B) \<le> unat (mmap_next s') \<and> 8 dvd unat (mmap_next s')
       else mmap_next s' = mmap_next s \<and> unat (brk s) \<le> unat ?new \<and>
            unat ?new + 32 + unat (size B) \<le> unat (brk s') \<and>
            unat (brk s') \<le> unat (brk_limit s) \<and> 8 dvd unat (brk s')"
      using B(2,3) g(3) m' m8 page_round_facts [of ?req] af(1) by simp
    show "heap_pre s' \<noteq> 0 \<longrightarrow>
       status B \<noteq> STATUS_MAPPED \<or> (heap_pre s \<noteq> 0 \<and> L \<noteq> [] \<and> prev B = last L)"
      using g(6) B(5) hl(3,5) by auto
  qed
  have "allocated_at s' (L @ [?new]) p n"
    using allocated_atI [OF ok' _ p B(1), of n] B(2,3) af(2) by simp
  with ok' show ?thesis by (intro exI conjI) auto
qed

lemma heap_ok_fresh_gap:
  assumes ok: "heap_ok s L" and x: "x \<in> set L"
    and y: "unat (brk s) \<le> unat y" "unat y < unat (brk_limit s)"
  shows "x \<noteq> y"
proof (cases "is_mapped s x")
  case True
  from heap_ok_mapped_mem [OF ok x True] y show ?thesis by auto
next
  case False
  from heap_ok_arena_mem [OF ok x False] y show ?thesis by (auto simp: bend_def)
qed

lemma malloc_extend_state:
  assumes nz: "n \<noteq> 0" and hp: "heap_pre s \<noteq> 0"
    and ff: "find_fit (ALIGN META_SIZE + ALIGN n) s = Inr (0, s)"
    and small: "\<not> ALIGN META_SIZE + ALIGN n > MMAP_THRESHOLD"
    and gl: "get_last s = Inr (x, s)" "x \<noteq> 0" "blocks s x = Some X" "status X \<noteq> STATUS_FREE"
    and he: "heap_end s \<noteq> brk s" "blocks s (heap_end s) = Some E"
    and ret: "os_malloc n s = Inr (p, s')"
  shows "p = brk s + META_SIZE \<and>
     unat (brk s) + unat (ALIGN META_SIZE + ALIGN n) \<le> unat (brk_limit s) \<and>
     blocks s' (brk s) =
       Some \<lparr>size = ALIGN n, status = STATUS_ALLOC, prev = heap_end s, next = 0\<rparr> \<and>
     blocks s' (heap_end s) = Some (E\<lparr>next := brk s\<rparr>) \<and>
     (\<forall>y. y \<noteq> brk s \<and> y \<noteq> heap_end s \<longrightarrow> blocks s' y = blocks s y) \<and>
     heap_start s' = heap_start s \<and> heap_end s' = brk s \<and>
     brk s' = brk s + (ALIGN META_SIZE + ALIGN n) \<and> brk_limit s' = brk_limit s \<and>
     mmap_next s' = mmap_next s \<and> heap_pre s' = heap_pre s"
proof -
  define requested where "requested = ALIGN META_SIZE + ALIGN n"
  show ?thesis
    using ret nz hp ff small gl he
    unfolding requested_def [symmetric]
    apply (simp add: os_malloc_def Let_def requested_def [symmetric] bnd_def)
    apply (auto simp: bnd_def sbrk_def rd_def upd_def put_def Let_def
         split: if_splits sum.splits option.splits)
    done
qed

lemma malloc_extend:
  assumes ok: "heap_ok s L" and n: "n \<noteq> 0" "unat n \<le> 2 ^ 64 - 40"
    and hp: "heap_pre s \<noteq> 0"
    and ff: "find_fit (ALIGN META_SIZE + ALIGN n) s = Inr (0, s1)"
    and small: "\<not> ALIGN META_SIZE + ALIGN n > MMAP_THRESHOLD"
    and gl: "get_last s = Inr (x, s2)" "blocks s x = Some X" "status X \<noteq> STATUS_FREE"
    and ret: "os_malloc n s = Inr (p, s')"
  shows "\<exists>L'. heap_ok s' L' \<and> set L \<subseteq> set L' \<and> allocated_at s' L' p n"
proof -
  note af = align_facts [OF n]
  note hl = heap_ok_last [OF ok]
  let ?new = "brk s"
  let ?req = "ALIGN META_SIZE + ALIGN n"
  let ?B = "\<lparr>size = ALIGN n, status = STATUS_ALLOC, prev = heap_end s, next = 0\<rparr>"
  have rq: "32 \<le> unat ?req" "8 dvd unat ?req" using af by simp_all
  from find_fit_ok [OF ok rq ff] have s1: "s1 = s"
    using heap_ok_mem_end(2) [OF _ _] by auto
  from get_last_spec [OF ok hp gl(1)] have s2: "s2 = s" and x: "x \<in> set L" by blast+
  have ne: "L \<noteq> []" by (rule hl(5) [OF hp])
  note hin = hl(4) [OF ne]
  from heap_ok_mem_end(3) [OF ok hin] obtain E where E: "blocks s (heap_end s) = Some E" by blast
  have sbq: "unat (brk s) + unat ?req \<le> unat (brk_limit s) \<Longrightarrow> heap_end s \<noteq> brk s"
    using heap_ok_fresh_gap [OF ok hin, of "brk s"] rq by auto
  from ret n(1) hp ff s1 small have sb: "unat (brk s) + unat ?req \<le> unat (brk_limit s)"
    using gl s2 heap_ok_mem_end(2) [OF ok x]
    by (auto simp: os_malloc_def Let_def bnd_def sbrk_def rd_def split: if_splits)
  note hne = sbq [OF sb]
  from malloc_extend_state [OF n(1) hp ff [unfolded s1] small gl(1) [unfolded s2]
      heap_ok_mem_end(2) [OF ok x] gl(2,3) hne E ret]
  have p: "p = ?new + META_SIZE"
    and B: "blocks s' ?new = Some ?B"
    and E': "blocks s' (heap_end s) = Some (E\<lparr>next := ?new\<rparr>)"
    and fr: "\<forall>y. y \<noteq> ?new \<and> y \<noteq> heap_end s \<longrightarrow> blocks s' y = blocks s y"
    and g: "heap_start s' = heap_start s" "heap_end s' = ?new" "brk s' = brk s + ?req"
      "brk_limit s' = brk_limit s" "mmap_next s' = mmap_next s" "heap_pre s' = heap_pre s"
    by blast+
  from sb unat_lt64 [of "brk_limit s"] have "unat (brk s) + unat ?req < 2 ^ 64" by simp
  from unat_add_nowrap [OF this] g(3) have b': "unat (brk s') = unat (brk s) + unat ?req" by simp
  have b8: "8 dvd unat (brk s)" using ok by (simp add: heap_ok_def)
  have fresh: "?new \<notin> set L" using heap_ok_fresh_gap [OF ok _, of _ "brk s"] sb rq by auto
  have ok': "heap_ok s' (L @ [?new])"
  proof (rule heap_ok_append [OF ok fresh _ _ B])
    show "?new \<noteq> 0" by (rule heap_ok_limits(3) [OF ok])
    show "8 dvd unat ?new" by (rule b8)
    show "next ?B = 0" by simp
    show "8 dvd unat (size ?B)" using af by simp
    show "\<forall>x\<in>set L. x \<noteq> last L \<longrightarrow> blocks s' x = blocks s x"
      using fr fresh hl(3) [OF ne] by metis
    show "L \<noteq> [] \<longrightarrow> (\<exists>E. blocks s (last L) = Some E \<and> blocks s' (last L) = Some (E\<lparr>next := ?new\<rparr>))"
      using E E' hl(3) by auto
    show "heap_start s' = (if L = [] then ?new else heap_start s)" using g(1) ne by simp
    show "heap_end s' = ?new" by (rule g(2))
    show "brk_limit s' = brk_limit s" by (rule g(4))
    show "if status ?B = STATUS_MAPPED
       then brk s' = brk s \<and> unat (mmap_next s) \<le> unat ?new \<and>
            unat ?new + 32 + unat (size ?B) \<le> unat (mmap_next s') \<and> 8 dvd unat (mmap_next s')
       else mmap_next s' = mmap_next s \<and> unat (brk s) \<le> unat ?new \<and>
            unat ?new + 32 + unat (size ?B) \<le> unat (brk s') \<and>
            unat (brk s') \<le> unat (brk_limit s) \<and> 8 dvd unat (brk s')"
      using g(5) b' b8 sb af(1) rq(2) by simp
    show "heap_pre s' \<noteq> 0 \<longrightarrow>
       status ?B \<noteq> STATUS_MAPPED \<or> (heap_pre s \<noteq> 0 \<and> L \<noteq> [] \<and> prev ?B = last L)"
      by simp
  qed
  have "allocated_at s' (L @ [?new]) p n"
    using allocated_atI [OF ok' _ p B, of n] af(2) by simp
  with ok' show ?thesis by (intro exI conjI) auto
qed

lemma malloc_first_state:
  assumes pre: "heap_pre s = 0" and nz: "n \<noteq> 0"
    and small: "ALIGN META_SIZE + ALIGN n \<le> MMAP_THRESHOLD"
    and rnz: "ALIGN META_SIZE + ALIGN n \<noteq> 0"
    and nov: "\<not> overlaps (ALIGN META_SIZE + ALIGN n)"
    and he: "heap_start s \<noteq> 0 \<longrightarrow> heap_end s \<noteq> brk s \<and>
        (ALIGN META_SIZE + 1 \<le> MMAP_THRESHOLD - (ALIGN META_SIZE + ALIGN n) \<longrightarrow>
           heap_end s \<noteq> brk s + (ALIGN META_SIZE + ALIGN n)) \<and>
        blocks s (heap_end s) = Some E"
    and ret: "os_malloc n s = Inr (p, s')"
  shows "p = brk s + META_SIZE \<and>
     unat (brk s) + unat MMAP_THRESHOLD \<le> unat (brk_limit s) \<and>
     brk s' = brk s + MMAP_THRESHOLD \<and> brk_limit s' = brk_limit s \<and>
     mmap_next s' = mmap_next s \<and>
     heap_start s' = (if heap_start s = 0 then brk s else heap_start s) \<and>
     (heap_start s \<noteq> 0 \<longrightarrow> blocks s' (heap_end s) = Some (E\<lparr>next := brk s\<rparr>)) \<and>
     (\<forall>y. y \<noteq> brk s \<and> y \<noteq> heap_end s \<and>
        (ALIGN META_SIZE + 1 \<le> MMAP_THRESHOLD - (ALIGN META_SIZE + ALIGN n) \<longrightarrow>
           y \<noteq> brk s + (ALIGN META_SIZE + ALIGN n)) \<longrightarrow>
        blocks s' y = blocks s y) \<and>
     (if ALIGN META_SIZE + 1 \<le> MMAP_THRESHOLD - (ALIGN META_SIZE + ALIGN n)
      then heap_end s' = brk s + (ALIGN META_SIZE + ALIGN n) \<and>
           blocks s' (brk s) = Some \<lparr>size = ALIGN n, status = STATUS_ALLOC,
             prev = (if heap_start s = 0 then 0 else heap_end s),
             next = brk s + (ALIGN META_SIZE + ALIGN n)\<rparr> \<and>
           blocks s' (brk s + (ALIGN META_SIZE + ALIGN n)) =
             Some \<lparr>size = MMAP_THRESHOLD - (ALIGN META_SIZE + ALIGN n) - ALIGN META_SIZE,
                   status = STATUS_FREE, prev = brk s, next = 0\<rparr>
      else heap_end s' = brk s \<and>
           blocks s' (brk s) = Some \<lparr>size = ALIGN n, status = STATUS_ALLOC,
             prev = (if heap_start s = 0 then 0 else heap_end s), next = 0\<rparr>)"
proof -
  define requested where "requested = ALIGN META_SIZE + ALIGN n"
  from rnz have ne: "brk s + requested \<noteq> brk s" by (simp add: requested_def)
  have sz: "requested - ALIGN META_SIZE = ALIGN n" by (simp add: requested_def)
  show ?thesis
    using ret pre nz small rnz ne sz he nov
    unfolding requested_def [symmetric]
    apply (simp add: os_malloc_def initialise_heap_def Let_def sbrk_def requested_def [symmetric])
    apply (auto simp: bnd_def fragment_unfold rd_def upd_def put_def Let_def
         split: if_splits sum.splits option.splits)
    done
qed

lemma malloc_first:
  assumes ok: "heap_ok s L" and n: "n \<noteq> 0" "unat n \<le> 2 ^ 64 - 40"
    and hp: "heap_pre s = 0"
    and small: "ALIGN META_SIZE + ALIGN n \<le> MMAP_THRESHOLD"
    and ret: "os_malloc n s = Inr (p, s')"
  shows "\<exists>L'. heap_ok s' L' \<and> set L \<subseteq> set L' \<and> allocated_at s' L' p n"
proof -
  note af = align_facts [OF n]
  note hl = heap_ok_last [OF ok]
  let ?new = "brk s"
  let ?req = "ALIGN META_SIZE + ALIGN n"
  let ?f = "brk s + ?req"
  let ?frag = "ALIGN META_SIZE + 1 \<le> MMAP_THRESHOLD - ?req"
  let ?pv = "if heap_start s = 0 then 0 else heap_end s"
  have rq: "32 \<le> unat ?req" "8 dvd unat ?req" using af by simp_all
  from small have rT: "unat ?req \<le> 131072" by (simp add: word_le_nat_alt MMAP_THRESHOLD_def)
  then have "unat (MMAP_THRESHOLD - ?req) = 131072 - unat ?req"
    using unat_sub_le [of ?req MMAP_THRESHOLD] by (simp add: MMAP_THRESHOLD_def)
  then have fr_nat: "?frag \<longleftrightarrow> unat ?req + 33 \<le> 131072"
    and rem: "unat (MMAP_THRESHOLD - ?req) = 131072 - unat ?req"
    using rT by (auto simp: word_le_nat_alt align_meta)
  from rq have rnz: "?req \<noteq> 0" by (auto simp: unat_eq_0)
  from ret hp n(1) small have sb: "unat (brk s) + unat MMAP_THRESHOLD \<le> unat (brk_limit s)"
    by (auto simp: os_malloc_def initialise_heap_def Let_def bnd_def sbrk_def
        split: if_splits sum.splits)
  then have sbT: "unat (brk s) + 131072 \<le> unat (brk_limit s)" by (simp add: MMAP_THRESHOLD_def)
  with unat_lt64 [of "brk_limit s"] rT have "unat (brk s) + unat ?req < 2 ^ 64" by simp
  from unat_add_nowrap [OF this] have uf: "unat ?f = unat (brk s) + unat ?req" .
  from sbT unat_lt64 [of "brk_limit s"] have "unat (brk s) + unat MMAP_THRESHOLD < 2 ^ 64"
    by (simp add: MMAP_THRESHOLD_def)
  from unat_add_nowrap [OF this]
  have ub: "unat (brk s + MMAP_THRESHOLD) = unat (brk s) + 131072" by (simp add: MMAP_THRESHOLD_def)
  have fresh: "?new \<notin> set L" using heap_ok_fresh_gap [OF ok _, of _ "brk s"] sbT by auto
  have freshf: "?frag \<Longrightarrow> ?f \<notin> set L"
    using heap_ok_fresh_gap [OF ok _, of _ ?f] sbT uf fr_nat by auto
  have "\<exists>E. heap_start s \<noteq> 0 \<longrightarrow> heap_end s \<noteq> ?new \<and> (?frag \<longrightarrow> heap_end s \<noteq> ?f) \<and>
      blocks s (heap_end s) = Some E"
  proof (cases "L = []")
    case True
    with hl(1) show ?thesis by simp
  next
    case False
    from hl(4) [OF False] fresh freshf heap_ok_mem_end(3) [OF ok]
    show ?thesis by auto
  qed
  then obtain E where he: "heap_start s \<noteq> 0 \<longrightarrow> heap_end s \<noteq> ?new \<and>
      (?frag \<longrightarrow> heap_end s \<noteq> ?f) \<and> blocks s (heap_end s) = Some E"
    by blast
  have nov: "\<not> overlaps ?req" using rq(1) rT by (intro not_overlaps) simp_all
  from malloc_first_state [OF hp n(1) small rnz nov he ret]
  have p: "p = ?new + META_SIZE"
    and g: "brk s' = brk s + MMAP_THRESHOLD" "brk_limit s' = brk_limit s"
      "mmap_next s' = mmap_next s"
      "heap_start s' = (if heap_start s = 0 then brk s else heap_start s)"
    and E': "heap_start s \<noteq> 0 \<longrightarrow> blocks s' (heap_end s) = Some (E\<lparr>next := ?new\<rparr>)"
    and fr: "\<forall>y. y \<noteq> ?new \<and> y \<noteq> heap_end s \<and> (?frag \<longrightarrow> y \<noteq> ?f) \<longrightarrow> blocks s' y = blocks s y"
    and cs: "if ?frag
      then heap_end s' = ?f \<and>
           blocks s' ?new = Some \<lparr>size = ALIGN n, status = STATUS_ALLOC, prev = ?pv, next = ?f\<rparr> \<and>
           blocks s' ?f = Some \<lparr>size = MMAP_THRESHOLD - ?req - ALIGN META_SIZE,
                   status = STATUS_FREE, prev = brk s, next = 0\<rparr>
      else heap_end s' = ?new \<and>
           blocks s' ?new = Some \<lparr>size = ALIGN n, status = STATUS_ALLOC, prev = ?pv, next = 0\<rparr>"
    by blast+
  have b8: "8 dvd unat (brk s)" using ok by (simp add: heap_ok_def)
  have b8': "8 dvd unat (brk s) + 131072" using b8 by (simp add: dvd_add)
  have frL: "\<forall>x\<in>set L. x \<noteq> last L \<longrightarrow> blocks s' x = blocks s x"
  proof (intro ballI impI)
    fix x assume x: "x \<in> set L" "x \<noteq> last L"
    then have "L \<noteq> []" by auto
    from hl(3) [OF this] x fresh freshf fr show "blocks s' x = blocks s x" by metis
  qed
  have lastL: "L \<noteq> [] \<longrightarrow> (\<exists>E. blocks s (last L) = Some E \<and> blocks s' (last L) = Some (E\<lparr>next := ?new\<rparr>))"
    using he E' hl(2,3) by auto
  have hs: "heap_start s' = (if L = [] then ?new else heap_start s)"
    using g(4) hl(1,2) by (cases "L = []") simp_all
  show ?thesis
  proof (cases ?frag)
    case False
    let ?B = "\<lparr>size = ALIGN n, status = STATUS_ALLOC, prev = ?pv, next = 0\<rparr>"
    from cs False have e: "heap_end s' = ?new" and B: "blocks s' ?new = Some ?B" by simp_all
    have ok': "heap_ok s' (L @ [?new])"
    proof (rule heap_ok_append [OF ok fresh _ _ B _ _ frL lastL hs e g(2)])
      show "?new \<noteq> 0" by (rule heap_ok_limits(3) [OF ok])
      show "8 dvd unat ?new" by (rule b8)
      show "next ?B = 0" by simp
      show "8 dvd unat (size ?B)" using af by simp
      show "if status ?B = STATUS_MAPPED
         then brk s' = brk s \<and> unat (mmap_next s) \<le> unat ?new \<and>
              unat ?new + 32 + unat (size ?B) \<le> unat (mmap_next s') \<and> 8 dvd unat (mmap_next s')
         else mmap_next s' = mmap_next s \<and> unat (brk s) \<le> unat ?new \<and>
              unat ?new + 32 + unat (size ?B) \<le> unat (brk s') \<and>
              unat (brk s') \<le> unat (brk_limit s) \<and> 8 dvd unat (brk s')"
        using g(1,3) ub b8' sbT af(1) rT by simp
      show "heap_pre s' \<noteq> 0 \<longrightarrow>
         status ?B \<noteq> STATUS_MAPPED \<or> (heap_pre s \<noteq> 0 \<and> L \<noteq> [] \<and> prev ?B = last L)"
        by simp
    qed
    have "allocated_at s' (L @ [?new]) p n"
      using allocated_atI [OF ok' _ p B, of n] af(2) by simp
    with ok' show ?thesis by (intro exI conjI) auto
  next
    case True
    let ?W = "\<lparr>size = MMAP_THRESHOLD - ALIGN META_SIZE, status = STATUS_ALLOC, prev = ?pv, next = 0\<rparr>"
    let ?W1 = "\<lparr>size = ALIGN n, status = STATUS_ALLOC, prev = ?pv, next = ?f\<rparr>"
    let ?F = "\<lparr>size = MMAP_THRESHOLD - ?req - ALIGN META_SIZE,
                   status = STATUS_FREE, prev = brk s, next = 0\<rparr>"
    from cs True have e: "heap_end s' = ?f" and W1: "blocks s' ?new = Some ?W1"
      and F: "blocks s' ?f = Some ?F" by simp_all
    define sv where "sv = s'\<lparr>blocks := (blocks s')(?new \<mapsto> ?W), heap_end := ?new\<rparr>"
    have svb: "blocks sv ?new = Some ?W" "\<And>y. y \<noteq> ?new \<Longrightarrow> blocks sv y = blocks s' y"
      and svg: "heap_start sv = heap_start s'" "heap_end sv = ?new" "brk sv = brk s'"
        "brk_limit sv = brk_limit s'" "mmap_next sv = mmap_next s'" "heap_pre sv = heap_pre s'"
      by (simp_all add: sv_def)
    have uW: "unat (size ?W) = 131040" by (simp add: MMAP_THRESHOLD_def align_meta)
    from True fr_nat have r33: "unat ?req + 33 \<le> 131072" by simp
    have "unat (MMAP_THRESHOLD - ?req - ALIGN META_SIZE) = unat (MMAP_THRESHOLD - ?req) - 32"
      using unat_sub_le [of "ALIGN META_SIZE" "MMAP_THRESHOLD - ?req"] rem r33
      by (simp add: align_meta)
    with rem have uF: "unat (size ?F) = 131072 - unat ?req - 32" by simp
    have okv: "heap_ok sv (L @ [?new])"
    proof (rule heap_ok_append [OF ok fresh _ _ svb(1)])
      show "?new \<noteq> 0" by (rule heap_ok_limits(3) [OF ok])
      show "8 dvd unat ?new" by (rule b8)
      show "next ?W = 0" by simp
      show "8 dvd unat (size ?W)" unfolding uW by simp
      show "\<forall>x\<in>set L. x \<noteq> last L \<longrightarrow> blocks sv x = blocks s x"
        using frL fresh svb(2) by metis
      show "L \<noteq> [] \<longrightarrow> (\<exists>E. blocks s (last L) = Some E \<and> blocks sv (last L) = Some (E\<lparr>next := ?new\<rparr>))"
      proof
        assume ne: "L \<noteq> []"
        from last_in_set [OF ne] fresh have "last L \<noteq> ?new" by metis
        from svb(2) [OF this] lastL ne
        show "\<exists>E. blocks s (last L) = Some E \<and> blocks sv (last L) = Some (E\<lparr>next := ?new\<rparr>)"
          by simp
      qed
      show "heap_start sv = (if L = [] then ?new else heap_start s)" using hs svg(1) by simp
      show "heap_end sv = ?new" by (rule svg(2))
      show "brk_limit sv = brk_limit s" using svg(4) g(2) by simp
      show "if status ?W = STATUS_MAPPED
         then brk sv = brk s \<and> unat (mmap_next s) \<le> unat ?new \<and>
              unat ?new + 32 + unat (size ?W) \<le> unat (mmap_next sv) \<and> 8 dvd unat (mmap_next sv)
         else mmap_next sv = mmap_next s \<and> unat (brk s) \<le> unat ?new \<and>
              unat ?new + 32 + unat (size ?W) \<le> unat (brk sv) \<and>
              unat (brk sv) \<le> unat (brk_limit s) \<and> 8 dvd unat (brk sv)"
        using g(1,3) svg(3,5) ub b8' sbT uW by simp
      show "heap_pre sv \<noteq> 0 \<longrightarrow>
         status ?W \<noteq> STATUS_MAPPED \<or> (heap_pre s \<noteq> 0 \<and> L \<noteq> [] \<and> prev ?W = last L)"
        by simp
    qed
    have L': "L @ [?new] = L @ ?new # []" by simp
    have fne: "?f \<noteq> ?new" using rnz by simp
    have ok': "heap_ok s' (L @ ?new # ?f # [])"
    proof (rule heap_ok_split [OF okv L' _ svb(1) W1 _ _ _ F])
      show "\<not> is_mapped sv ?new" using svb(1) by (simp add: is_mapped_def)
      show "status ?W1 \<noteq> STATUS_MAPPED" by simp
      show "next ?W1 = ?f" by simp
      show "8 dvd unat (size ?W1)" using af by simp
      show "status ?F \<noteq> STATUS_MAPPED" by simp
      show "next ?F = next ?W" by simp
      show "8 dvd unat (size ?F)" unfolding uF using rq(2) r33
        by (simp add: dvd_diff_nat)
      show "?f \<noteq> 0" using uf rq by (auto simp: unat_eq_0)
      show "8 dvd unat ?f" using uf b8 rq(2) by simp
      show "?f \<notin> set (L @ [?new])" using freshf [OF True] fne by simp
      show "unat ?new + 32 + unat (size ?W1) \<le> unat ?f" using uf af(1) by simp
      show "unat ?f + 32 + unat (size ?F) \<le> bend sv ?new"
        using uf uF uW svb(1) r33 by (simp add: bend_def bsize_def)
      show "\<forall>x\<in>set (L @ [?new]). x \<noteq> ?new \<and> ([] = [] \<or> x \<noteq> hd []) \<longrightarrow> blocks s' x = blocks sv x"
        using svb(2) by simp
      show "[] \<noteq> [] \<longrightarrow> (\<exists>N. blocks sv (hd []) = Some N \<and> blocks s' (hd []) = Some (N\<lparr>prev := ?f\<rparr>))"
        by simp
      show "heap_end s' = (if [] = [] then ?f else heap_end sv)" using e by simp
    qed (simp_all add: svg)
    have "allocated_at s' (L @ ?new # ?f # []) p n"
      using allocated_atI [OF ok' _ p W1, of n] af(2) by simp
    with ok' show ?thesis by (intro exI conjI) auto
  qed
qed

lemma heap_ok_empty: "heap_ok empty_heap []"
  by (simp add: heap_ok_def empty_heap_def)

section \<open>Merging a block into the one before it\<close>



section \<open>Releasing three blocks in a row\<close>











section \<open>Payload bytes under the allocator's calls\<close>














section \<open>Running the allocator on given calls\<close>

lemmas run_defs = os_malloc_def initialise_heap_def mmap_alloc_def mmap_def bnd_def put_def
  upd_def rd_def ALIGN_def ALIGNMENT_def META_SIZE_def MMAP_THRESHOLD_def page_round_def
  empty_heap_def Let_def sbrk_def fragment_def overlaps_def os_free_def coalesce_def munmap_def

section \<open>The registry after two large allocations\<close>

text \<open>
  Claim C4 says that after every sequence of public operations from the empty
  heap the registry is a consistent doubly linked list, in which no block's
  \<open>prev\<close> or \<open>next\<close> link points to the block itself. Two calls
  \<^verbatim>\<open>os_malloc(200000)\<close> from the empty heap both go through
  \<^verbatim>\<open>initialise_heap\<close> (the arena is never preallocated by a mapping), and the
  second one moves \<open>heap_end\<close> to the new block before it stores \<open>heap_end\<close> in
  the new block's \<open>prev\<close>: the block at \<open>heap_end\<close> is its own predecessor.
\<close>

theorem double_mapping_self_link:
  "\<exists>s. bnd (os_malloc 200000 empty_heap) (\<lambda>_. os_malloc 200000) = Inr (0x7F0000031020, s)
     \<and> heap_end s = 0x7F0000031000
     \<and> blocks s 0x7F0000031000 =
         Some \<lparr>size = 200000, status = STATUS_MAPPED, prev = 0x7F0000031000, next = 0\<rparr>"
  by (simp add: run_defs)

section \<open>Resizing to zero\<close>

text \<open>
  Claim C8: for every pointer \<open>p\<close>, \<^verbatim>\<open>os_realloc(p, 0)\<close> leaves the heap in the
  state \<^verbatim>\<open>os_free(p)\<close> produces, faults where it faults, and returns \<^verbatim>\<open>NULL\<close>.
\<close>

theorem realloc_zero_is_free:
  "os_realloc p 0 s = bnd (os_free p s) (\<lambda>_ s1. Inr (0, s1))"
  by (simp add: os_realloc_def os_malloc_def os_free_def bnd_def ALIGN_def ALIGNMENT_def)

theorem realloc_zero_is_free_witness:
  "\<exists>s s'. os_malloc 8 empty_heap = Inr (0x10000020, s) \<and> os_realloc 0x10000020 0 s = Inr (0, s')
     \<and> blocks s' 0x10000000 = Some \<lparr>size = 131040, status = STATUS_FREE, prev = 0, next = 0\<rparr>
     \<and> heap_end s' = 0x10000000"
  using realloc_zero_is_free [of "0x10000020"]
  by (simp add: run_defs)

section \<open>Zero-filling allocation\<close>

text \<open>
  Claim C7 says that all \<open>n * s\<close> bytes of a region returned by
  \<^verbatim>\<open>os_calloc(n, s)\<close> read as zero, and the docstring of \<^verbatim>\<open>os_calloc\<close> that it
  allocates \<^verbatim>\<open>nmemb * size\<close> bytes and sets them to 0. The function computes
  \<^verbatim>\<open>nmemb * size\<close> in \<^verbatim>\<open>size_t\<close> and does not look for an overflow. For
  \<open>n = 2\<^sup>6\<^sup>1 + 1\<close> and \<open>s = 8\<close> the product is \<open>2\<^sup>6\<^sup>4 + 8\<close> and the function
  computes 8. On the empty heap with every byte set to \<open>0xFF\<close> the call
  returns \<open>0x10000020\<close>, the payload of a block of 8 bytes: the byte at offset
  7 is zero, the byte at offset 8 is not, and the header of the free
  remainder lies at offset 8.
\<close>

theorem calloc_wraps_short:
  "8 < unat (2 ^ 61 + 1 :: size_t) * unat (8 :: size_t) \<and>
   (\<exists>s'. os_calloc (2 ^ 61 + 1) 8 (empty_heap\<lparr>mem := \<lambda>_. 0xFF\<rparr>) = Inr (0x10000020, s') \<and>
      blocks s' 0x10000000 =
        Some \<lparr>size = 8, status = STATUS_ALLOC, prev = 0, next = 0x10000028\<rparr> \<and>
      blocks s' (0x10000020 + 8) =
        Some \<lparr>size = 131000, status = STATUS_FREE, prev = 0x10000000, next = 0\<rparr> \<and>
      mem s' (0x10000020 + 7) = 0 \<and> mem s' (0x10000020 + 8) = 0xFF)"
proof -
  have m: "mem (memset 0x10000020 0 8 s) (0x10000020 + j) = (if j < 8 then 0 else mem s (0x10000020 + j))"
    for s and j :: size_t
    by (simp add: memset_def memset_loop_at)
  have "mem (memset 0x10000020 0 8 s) (0x10000020 + 7) = 0"
    "mem (memset 0x10000020 0 8 s) (0x10000020 + 8) = mem s (0x10000020 + 8)" for s
    by (simp_all only: m) simp_all
  then have b: "mem (memset 0x10000020 0 8 s) 0x10000027 = 0"
    "mem (memset 0x10000020 0 8 s) 0x10000028 = mem s 0x10000028" for s
    by simp_all
  have pr: "(2 ^ 61 + 1 :: size_t) * 8 = 8" by simp
  have bl: "blocks (memset p v n s) = blocks s" for p v n s
    by (simp add: memset_def)
  show ?thesis
    apply (simp only: os_calloc_def Let_def pr)
    apply (simp add: PAGE_SIZE_def b bl run_defs)
    done
qed

text \<open>
  What holds of the product that the function computes, \<^verbatim>\<open>nmemb * size\<close> in
  \<^verbatim>\<open>size_t\<close>: for \<open>n > 0\<close> and \<open>s > 0\<close>, when \<^verbatim>\<open>os_calloc(n, s)\<close> returns a
  region, the bytes of the region at the offsets below that product read as
  zero.
\<close>

theorem calloc_zeroed:
  assumes ret: "os_calloc nmemb sz s = Inr (p, s')"
    and nz: "nmemb \<noteq> 0" "sz \<noteq> 0" "p \<noteq> 0"
  shows "\<forall>i. i < nmemb * sz \<longrightarrow> mem s' (p + i) = 0"
proof (intro allI impI)
  fix i :: size_t
  assume i: "i < nmemb * sz"
  define total where "total = ALIGN (nmemb * sz)"
  show "mem s' (p + i) = 0"
  proof (cases "PAGE_SIZE \<le> total + META_SIZE")
    case True
    have nowrap: "unat total + 32 < 2 ^ 64"
    proof (rule ccontr)
      assume "\<not> unat total + 32 < 2 ^ 64"
      moreover have "unat total < 2 ^ 64" using unsigned_less [of total] by simp
      ultimately have "unat (total + 32) < 32"
        using unat_add_wrap [of total 32] by simp
      with True show False
        by (simp add: PAGE_SIZE_def META_SIZE_def word_le_nat_alt)
    qed
    then have tot32: "unat (total + 32) = unat total + 32"
      using unat_add_lem [of total 32] by simp
    have "total \<noteq> 0" using True by (auto simp: PAGE_SIZE_def META_SIZE_def)
    then have ile: "nmemb * sz \<le> total"
      using ALIGN_ge [of "nmemb * sz"] by (simp add: total_def)
    with i have il: "unat i < unat total" by (simp add: word_less_nat_alt word_le_nat_alt)
    then have "unat i + 32 < 2 ^ 64" using nowrap by simp
    then have i32: "unat (32 + i) = 32 + unat i"
      using unat_add_lem [of 32 i] by simp
    from ret nz True obtain nb s1 where
      ma: "mmap_alloc (total + META_SIZE) s = Inr (nb, s1)" and p: "p = nb + META_SIZE"
      and m: "mem s' = mem s1"
      by (auto simp: os_calloc_def Let_def total_def [symmetric] bnd_def rd_def upd_def
          split: sum.splits if_splits option.splits)
    have "mem s1 (nb + (32 + i)) = 0"
      using ma il tot32 i32 by (intro mmap_alloc_zero [OF ma]) (simp add: META_SIZE_def)
    then show ?thesis by (simp add: m p META_SIZE_def add.assoc)
  next
    case False
    with ret nz obtain s1 where om: "os_malloc total s = Inr (p, s1)"
      and s': "s' = memset p 0 total s1"
      by (auto simp: os_calloc_def Let_def total_def [symmetric] bnd_def split: sum.splits)
    have "total \<noteq> 0"
    proof
      assume "total = 0"
      with om nz show False by (simp add: os_malloc_def)
    qed
    then have "nmemb * sz \<le> total"
      using ALIGN_ge [of "nmemb * sz"] by (simp add: total_def)
    with i have "i < total" by simp
    then show ?thesis by (simp add: s' memset_zero)
  qed
qed

theorem calloc_zeroed_witness:
  "\<exists>s'. os_calloc 3 5 (empty_heap\<lparr>mem := \<lambda>_. 0xFF\<rparr>) = Inr (0x10000020, s') \<and>
     (\<forall>i. i < 3 * 5 \<longrightarrow> mem s' (0x10000020 + i) = 0)"
proof -
  obtain s' where r: "os_calloc 3 5 (empty_heap\<lparr>mem := \<lambda>_. 0xFF\<rparr>) = Inr (0x10000020, s')"
    by (simp add: os_calloc_def PAGE_SIZE_def run_defs)
  from calloc_zeroed [OF r] r show ?thesis by auto
qed

text \<open>
  Claim C6 says that when \<open>align(n * s)\<close> plus the header size is at least
  \<open>PAGE_SIZE\<close> the block is always obtained by a direct mapping, and the
  comment in \<^verbatim>\<open>os_calloc\<close> that a total allocation cost of at least
  \<open>PAGE_SIZE\<close> goes to \<^verbatim>\<open>mmap\<close>. With \<open>n = 2\<^sup>6\<^sup>1 + 1\<close> and \<open>s = 8\<close> the cost
  is \<open>2\<^sup>6\<^sup>4 + 40\<close> bytes; the \<^verbatim>\<open>size_t\<close> product is 8, the test against
  \<open>PAGE_SIZE\<close> fails and the request goes to \<^verbatim>\<open>os_malloc(8)\<close>: on the empty
  heap the block comes from the arena (the break moves by \<open>MMAP_THRESHOLD\<close>)
  and no mapping is made.
\<close>

theorem calloc_wraps_to_arena:
  "unat PAGE_SIZE \<le> unat (2 ^ 61 + 1 :: size_t) * unat (8 :: size_t) + unat META_SIZE \<and>
   (\<exists>s'. os_calloc (2 ^ 61 + 1) 8 empty_heap = Inr (0x10000020, s') \<and>
      mmap_next s' = mmap_next empty_heap \<and> brk s' = 0x10020000 \<and>
      blocks s' 0x10000000 =
        Some \<lparr>size = 8, status = STATUS_ALLOC, prev = 0, next = 0x10000028\<rparr>)"
  by (simp add: os_calloc_def PAGE_SIZE_def memset_def run_defs)

text \<open>
  What holds of the total that the function computes,
  \<open>total = ALIGN(n * s)\<close> in \<^verbatim>\<open>size_t\<close>, for \<open>n > 0\<close> and \<open>s > 0\<close>: when
  \<open>total\<close> plus the header size reaches \<open>PAGE_SIZE\<close>, a call that returns has
  obtained the block by a mapping of \<open>total\<close> plus the header size and has
  linked it at the registry's end, with no look at \<open>MMAP_THRESHOLD\<close> and no
  change of the break, and the call does return when the mapping is granted
  and the registry's end is a block; when the sum is below \<open>PAGE_SIZE\<close>, the
  call is \<^verbatim>\<open>os_malloc(total)\<close> followed by \<^verbatim>\<open>memset\<close>, and the \<open>total\<close> bytes
  of a returned region read as zero.
\<close>

theorem calloc_routing:
  assumes nz: "nmemb \<noteq> 0" "sz \<noteq> 0"
  shows "(PAGE_SIZE \<le> ALIGN (nmemb * sz) + META_SIZE \<longrightarrow>
           (\<forall>p s'. os_calloc nmemb sz s = Inr (p, s') \<longrightarrow>
              p = mmap_next s + META_SIZE \<and> heap_end s' = mmap_next s \<and> brk s' = brk s \<and>
              (\<exists>b. blocks s' (mmap_next s) = Some b \<and> status b = STATUS_MAPPED \<and>
                   size b = ALIGN (nmemb * sz) \<and> prev b = heap_end s) \<and>
              (heap_end s \<noteq> 0 \<longrightarrow> (\<exists>e. blocks s' (heap_end s) = Some e \<and> next e = mmap_next s)) \<and>
              (heap_end s = 0 \<longrightarrow> heap_start s' = mmap_next s)) \<and>
           (unat (mmap_next s) + page_round (ALIGN (nmemb * sz) + META_SIZE) < 2 ^ 64 \<and>
            (heap_end s = 0 \<or> blocks s (heap_end s) \<noteq> None) \<longrightarrow>
              (\<exists>p s'. os_calloc nmemb sz s = Inr (p, s'))))
       \<and> (ALIGN (nmemb * sz) + META_SIZE < PAGE_SIZE \<longrightarrow>
           os_calloc nmemb sz s =
             bnd (os_malloc (ALIGN (nmemb * sz)) s)
               (\<lambda>addr s1. Inr (addr, if addr \<noteq> 0 then memset addr 0 (ALIGN (nmemb * sz)) s1 else s1)) \<and>
           (\<forall>p s'. os_calloc nmemb sz s = Inr (p, s') \<and> p \<noteq> 0 \<longrightarrow>
              (\<forall>i. i < ALIGN (nmemb * sz) \<longrightarrow> mem s' (p + i) = 0)))"
proof (intro conjI impI allI)
  fix p s'
  assume big: "PAGE_SIZE \<le> ALIGN (nmemb * sz) + META_SIZE"
    and ret: "os_calloc nmemb sz s = Inr (p, s')"
  from big have ne: "ALIGN (nmemb * sz) + META_SIZE \<noteq> 0"
    by (auto simp: PAGE_SIZE_def)
  from ret nz big ne show "p = mmap_next s + META_SIZE"
    by (auto simp: os_calloc_def Let_def bnd_def rd_def upd_def mmap_alloc_def mmap_def put_def
        split: sum.splits if_splits option.splits)
  from ret nz big ne show "heap_end s' = mmap_next s"
    by (auto simp: os_calloc_def Let_def bnd_def rd_def upd_def mmap_alloc_def mmap_def put_def
        split: sum.splits if_splits option.splits)
  from ret nz big ne show "brk s' = brk s"
    by (auto simp: os_calloc_def Let_def bnd_def rd_def upd_def mmap_alloc_def mmap_def put_def
        split: sum.splits if_splits option.splits)
  from ret nz big ne show "\<exists>b. blocks s' (mmap_next s) = Some b \<and> status b = STATUS_MAPPED \<and>
                   size b = ALIGN (nmemb * sz) \<and> prev b = heap_end s"
    by (auto simp: os_calloc_def Let_def bnd_def rd_def upd_def mmap_alloc_def mmap_def put_def
        ALIGN_def ALIGNMENT_def META_SIZE_def
        split: sum.splits if_splits option.splits)
  {
    assume "heap_end s \<noteq> 0"
    with ret nz big ne show "\<exists>e. blocks s' (heap_end s) = Some e \<and> next e = mmap_next s"
      by (auto simp: os_calloc_def Let_def bnd_def rd_def upd_def mmap_alloc_def mmap_def put_def
        split: sum.splits if_splits option.splits)
  }
  {
    assume "heap_end s = 0"
    with ret nz big ne show "heap_start s' = mmap_next s"
      by (auto simp: os_calloc_def Let_def bnd_def rd_def upd_def mmap_alloc_def mmap_def put_def
        split: sum.splits if_splits option.splits)
  }
next
  assume big: "PAGE_SIZE \<le> ALIGN (nmemb * sz) + META_SIZE"
    and ok: "unat (mmap_next s) + page_round (ALIGN (nmemb * sz) + META_SIZE) < 2 ^ 64 \<and>
            (heap_end s = 0 \<or> blocks s (heap_end s) \<noteq> None)"
  from big have ne: "ALIGN (nmemb * sz) + META_SIZE \<noteq> 0"
    by (auto simp: PAGE_SIZE_def)
  from nz big ne ok show "\<exists>p s'. os_calloc nmemb sz s = Inr (p, s')"
    by (auto simp: os_calloc_def Let_def bnd_def rd_def upd_def mmap_alloc_def mmap_def put_def
        split: sum.splits if_splits option.splits)
next
  assume small: "ALIGN (nmemb * sz) + META_SIZE < PAGE_SIZE"
  then have "\<not> PAGE_SIZE \<le> ALIGN (nmemb * sz) + META_SIZE" by simp
  with nz show "os_calloc nmemb sz s =
             bnd (os_malloc (ALIGN (nmemb * sz)) s)
               (\<lambda>addr s1. Inr (addr, if addr \<noteq> 0 then memset addr 0 (ALIGN (nmemb * sz)) s1 else s1))"
    by (simp add: os_calloc_def Let_def)
next
  fix p s' i
  assume small: "ALIGN (nmemb * sz) + META_SIZE < PAGE_SIZE"
    and ret: "os_calloc nmemb sz s = Inr (p, s') \<and> p \<noteq> 0"
    and i: "i < ALIGN (nmemb * sz)"
  from small have "\<not> PAGE_SIZE \<le> ALIGN (nmemb * sz) + META_SIZE" by simp
  with ret nz obtain s1 where "s' = memset p 0 (ALIGN (nmemb * sz)) s1"
    by (auto simp: os_calloc_def Let_def bnd_def split: sum.splits)
  with i show "mem s' (p + i) = 0" by (simp add: memset_zero)
qed


theorem calloc_routing_witness:
  "(\<exists>s'. os_calloc 1 5000 empty_heap = Inr (0x7f0000000020, s') \<and>
         heap_end s' = 0x7f0000000000 \<and> brk s' = 0x10000000 \<and>
         blocks s' 0x7f0000000000 =
           Some \<lparr>size = 5000, status = STATUS_MAPPED, prev = 0, next = 0\<rparr>) \<and>
   (\<exists>s'. os_calloc 3 5 (empty_heap\<lparr>mem := \<lambda>_. 0xFF\<rparr>) = Inr (0x10000020, s') \<and>
         brk s' = 0x10020000 \<and> (\<forall>i. i < 16 \<longrightarrow> mem s' (0x10000020 + i) = 0))"
proof (rule conjI)
  have nz: "(1 :: size_t) \<noteq> 0" "(5000 :: size_t) \<noteq> 0" by simp_all
  have big: "PAGE_SIZE \<le> ALIGN (1 * 5000) + META_SIZE"
    by (simp add: PAGE_SIZE_def ALIGN_def ALIGNMENT_def META_SIZE_def)
  obtain s' where r: "os_calloc 1 5000 empty_heap = Inr (0x7f0000000020, s')"
    and b: "blocks s' 0x7f0000000000 =
           Some \<lparr>size = 5000, status = STATUS_MAPPED, prev = 0, next = 0\<rparr>"
    by (simp add: os_calloc_def PAGE_SIZE_def run_defs)
  from calloc_routing [OF nz, of empty_heap] big r
  have "heap_end s' = mmap_next empty_heap \<and> brk s' = brk empty_heap" by blast
  with r b show "\<exists>s'. os_calloc 1 5000 empty_heap = Inr (0x7f0000000020, s') \<and>
         heap_end s' = 0x7f0000000000 \<and> brk s' = 0x10000000 \<and>
         blocks s' 0x7f0000000000 =
           Some \<lparr>size = 5000, status = STATUS_MAPPED, prev = 0, next = 0\<rparr>"
    by (auto simp: empty_heap_def)
next
  have nz: "(3 :: size_t) \<noteq> 0" "(5 :: size_t) \<noteq> 0" by simp_all
  have small: "ALIGN (3 * 5) + META_SIZE < PAGE_SIZE" and al: "ALIGN (3 * 5) = 16"
    by (simp_all add: PAGE_SIZE_def ALIGN_def ALIGNMENT_def META_SIZE_def)
  obtain s' where r: "os_calloc 3 5 (empty_heap\<lparr>mem := \<lambda>_. 0xFF\<rparr>) = Inr (0x10000020, s')"
    and b: "brk s' = 0x10020000"
    by (simp add: os_calloc_def PAGE_SIZE_def memset_def run_defs)
  have pnz: "(0x10000020 :: addr) \<noteq> 0" by simp
  from calloc_routing [OF nz, of "empty_heap\<lparr>mem := \<lambda>_. 0xFF\<rparr>"] small r pnz
  have "\<forall>i. i < ALIGN (3 * 5) \<longrightarrow> mem s' (0x10000020 + i) = 0" by blast
  with r b al show "\<exists>s'. os_calloc 3 5 (empty_heap\<lparr>mem := \<lambda>_. 0xFF\<rparr>) = Inr (0x10000020, s') \<and>
         brk s' = 0x10020000 \<and> (\<forall>i. i < 16 \<longrightarrow> mem s' (0x10000020 + i) = 0)"
    by auto
qed

section \<open>Placement search\<close>

text \<open>
  Claim C2: \<^verbatim>\<open>find_fit(requested)\<close> walks the registry in list order; the blocks
  that qualify are those that are free with a capacity of at least
  \<open>requested\<close>; it returns none when no block qualifies, and otherwise the
  first of the blocks with the smallest leftover. A leftover of zero ends the
  walk: the list \<open>xs\<close> of the blocks walked over stops there, whatever follows
  in the registry. When the leftover can hold a header and one byte, the
  winner is split by \<^verbatim>\<open>fragment\<close> before it is returned: a free block of the
  leftover's size starts \<open>requested\<close> bytes into it. The requirement holds
  a header: it is at least \<^verbatim>\<open>sizeof(struct block_meta)\<close>.
\<close>

theorem find_fit_best_fit:
  assumes sc: "scanned s requested (heap_start s) xs" and hdr: "META_SIZE \<le> requested"
  shows "((\<forall>i<length xs. \<not> qualifies requested (snd (xs ! i))) \<and>
          find_fit requested s = Inr (0, s))
     \<or> (\<exists>j<length xs. \<exists>s'.
          qualifies requested (snd (xs ! j)) \<and>
          (\<forall>i<length xs. qualifies requested (snd (xs ! i)) \<longrightarrow>
             leftover requested (snd (xs ! j)) \<le> leftover requested (snd (xs ! i))) \<and>
          (\<forall>i<j. qualifies requested (snd (xs ! i)) \<longrightarrow>
             leftover requested (snd (xs ! j)) < leftover requested (snd (xs ! i))) \<and>
          (leftover requested (snd (xs ! j)) = 0 \<longrightarrow> Suc j = length xs) \<and>
          find_fit requested s = Inr (fst (xs ! j), s') \<and>
          (if ALIGN META_SIZE + 1 \<le> leftover requested (snd (xs ! j))
           then fragment (fst (xs ! j)) (leftover requested (snd (xs ! j))) requested s = Inr ((), s') \<and>
                (\<exists>f. blocks s' (fst (xs ! j) + requested) = Some f \<and> status f = STATUS_FREE \<and>
                     size f = leftover requested (snd (xs ! j)) - ALIGN META_SIZE) \<and>
                (\<exists>n. blocks s' (fst (xs ! j)) = Some n \<and> size n = requested - ALIGN META_SIZE \<and>
                     next n = fst (xs ! j) + requested)
           else s' = s))"
proof -
  from hdr have h32: "32 \<le> unat requested" by (simp add: word_le_nat_alt META_SIZE_def)
  then have nz: "requested \<noteq> 0" by auto
  have pos: "(0 :: size_t) < - 1"
    by (simp add: word_less_nat_alt unsigned_minus_1_eq_mask mask_eq_exp_minus_1)
  from find_fit_loop_scanned [OF sc pos, of 0] obtain w r where
    loop: "find_fit_loop s requested (heap_start s) 0 (- 1) = Some (Inr (w, r))"
    and alt: "(w = 0 \<and> r = - 1 \<and>
        (\<forall>i<length xs. qualifies requested (snd (xs ! i)) \<longrightarrow> - 1 \<le> leftover requested (snd (xs ! i))))
      \<or> (\<exists>j<length xs. w = fst (xs ! j) \<and> qualifies requested (snd (xs ! j)) \<and>
            r = leftover requested (snd (xs ! j)) \<and> r < - 1 \<and>
            (\<forall>i<j. qualifies requested (snd (xs ! i)) \<longrightarrow> r < leftover requested (snd (xs ! i))) \<and>
            (\<forall>i<length xs. qualifies requested (snd (xs ! i)) \<longrightarrow> r \<le> leftover requested (snd (xs ! i))))"
    by blast
  from alt show ?thesis
  proof
    assume h: "w = 0 \<and> r = - 1 \<and>
        (\<forall>i<length xs. qualifies requested (snd (xs ! i)) \<longrightarrow> - 1 \<le> leftover requested (snd (xs ! i)))"
    have none: "\<forall>i<length xs. \<not> qualifies requested (snd (xs ! i))"
    proof (intro allI impI notI)
      fix i assume i: "i < length xs" and q: "qualifies requested (snd (xs ! i))"
      with h have "- 1 \<le> leftover requested (snd (xs ! i))" by blast
      then have "leftover requested (snd (xs ! i)) = - 1" by (simp add: word_order.extremum_unique)
      with leftover_not_max [OF q nz] show False by simp
    qed
    from loop h have "find_fit requested s = Inr (0, s)"
      by (simp add: find_fit_def)
    with none show ?thesis by blast
  next
    assume "\<exists>j<length xs. w = fst (xs ! j) \<and> qualifies requested (snd (xs ! j)) \<and>
            r = leftover requested (snd (xs ! j)) \<and> r < - 1 \<and>
            (\<forall>i<j. qualifies requested (snd (xs ! i)) \<longrightarrow> r < leftover requested (snd (xs ! i))) \<and>
            (\<forall>i<length xs. qualifies requested (snd (xs ! i)) \<longrightarrow> r \<le> leftover requested (snd (xs ! i)))"
    then obtain j where j: "j < length xs" and w: "w = fst (xs ! j)"
      and q: "qualifies requested (snd (xs ! j))"
      and r: "r = leftover requested (snd (xs ! j))"
      and first: "\<forall>i<j. qualifies requested (snd (xs ! i)) \<longrightarrow> r < leftover requested (snd (xs ! i))"
      and least: "\<forall>i<length xs. qualifies requested (snd (xs ! i)) \<longrightarrow> r \<le> leftover requested (snd (xs ! i))"
      by blast
    from scanned_nth [OF sc j] have wnz: "w \<noteq> 0"
      and wb: "blocks s w = Some (snd (xs ! j))"
      and nx: "if qualifies requested (snd (xs ! j)) \<and> leftover requested (snd (xs ! j)) = 0
        then Suc j = length xs
        else next (snd (xs ! j)) = 0 \<or> blocks s (next (snd (xs ! j))) \<noteq> None"
      by (auto simp: w split: if_splits)
    from nx q r have stop: "r = 0 \<longrightarrow> Suc j = length xs" by simp
    show ?thesis
    proof (cases "ALIGN META_SIZE + 1 \<le> r")
      case True
      then have "r \<noteq> 0" by (auto simp: ALIGN_def ALIGNMENT_def META_SIZE_def)
      with nx q r have nxb: "next (snd (xs ! j)) = 0 \<or> blocks s (next (snd (xs ! j))) \<noteq> None"
        by simp
      have nov: "\<not> overlaps requested"
      proof (rule not_overlaps [OF h32])
        from q have le: "unat requested \<le> unat (META_SIZE + size (snd (xs ! j)))"
          by (simp add: qualifies_def word_le_nat_alt)
        from True have "33 \<le> unat r" by (simp add: align_meta word_le_nat_alt)
        moreover have "unat r = unat (META_SIZE + size (snd (xs ! j))) - unat requested"
          unfolding r leftover_def using le by (simp add: unat_sub word_le_nat_alt)
        moreover have "unat (META_SIZE + size (snd (xs ! j))) < 2 ^ 64"
          using unsigned_less [of "META_SIZE + size (snd (xs ! j))"] by simp
        ultimately show "unat requested \<le> 2 ^ 64 - 32" by simp
      qed
      from fragment_effect [OF wb nz nxb nov, of r] obtain s' where
        fr: "fragment w r requested s = Inr ((), s')"
        and f: "\<exists>f. blocks s' (w + requested) = Some f \<and> size f = r - ALIGN META_SIZE \<and>
          status f = STATUS_FREE"
        and n: "\<exists>n. blocks s' w = Some n \<and> size n = requested - ALIGN META_SIZE \<and>
          next n = w + requested \<and> status n = status (snd (xs ! j))"
        by blast
      from loop wnz True fr have "find_fit requested s = Inr (w, s')"
        by (simp add: find_fit_def bnd_def)
      with j q first least stop True fr f n show ?thesis
        unfolding w r by (intro disjI2 exI [of _ j] exI [of _ s'] conjI) auto
    next
      case False
      with loop wnz have "find_fit requested s = Inr (w, s)"
        by (simp add: find_fit_def bnd_def)
      with j q first least stop False show ?thesis
        unfolding w r by (intro disjI2 exI [of _ j] exI [of _ s] conjI) auto
    qed
  qed
qed


theorem find_fit_best_fit_witness:
  "scanned sample_heap 184 (heap_start sample_heap) sample_registry \<and>
   (\<exists>s'. find_fit 184 sample_heap = Inr (0x10000088, s') \<and>
      map_option size (blocks s' 0x10000088) = Some 152 \<and>
      blocks s' 0x10000140 =
        Some \<lparr>size = 16, status = STATUS_FREE, prev = 0x10000088, next = 0x10000170\<rparr>) \<and>
   scanned sample_heap 88 (heap_start sample_heap) (take 4 sample_registry) \<and>
   find_fit 88 sample_heap = Inr (0x100001F8, sample_heap)"
proof -
  have sc1: "scanned sample_heap 184 (heap_start sample_heap) sample_registry"
    by (simp add: sample_heap_def sample_registry_def qualifies_def leftover_def META_SIZE_def)
  have sc2: "scanned sample_heap 88 (heap_start sample_heap) (take 4 sample_registry)"
    by (simp add: sample_heap_def sample_registry_def qualifies_def leftover_def META_SIZE_def)
  have q1: "qualifies 184 (snd (sample_registry ! 1))" "1 < length sample_registry"
    by (simp_all add: sample_registry_def qualifies_def META_SIZE_def)
  have q2: "qualifies 88 (snd (take 4 sample_registry ! 3))" "3 < length (take 4 sample_registry)"
    by (simp_all add: sample_registry_def qualifies_def META_SIZE_def)
  have h: "META_SIZE \<le> (184 :: size_t)" "META_SIZE \<le> (88 :: size_t)"
    by (simp_all add: META_SIZE_def)
  have "\<exists>j s'. find_fit 184 sample_heap = Inr (fst (sample_registry ! j), s')"
    using find_fit_best_fit [OF sc1 h(1)] q1 by fastforce
  moreover have "\<exists>j s'. find_fit 88 sample_heap = Inr (fst (take 4 sample_registry ! j), s')"
    using find_fit_best_fit [OF sc2 h(2)] q2 by fastforce
  moreover have "\<exists>s'. find_fit 184 sample_heap = Inr (0x10000088, s') \<and>
      map_option size (blocks s' 0x10000088) = Some 152 \<and>
      blocks s' 0x10000140 =
        Some \<lparr>size = 16, status = STATUS_FREE, prev = 0x10000088, next = 0x10000170\<rparr>"
    by (simp add: find_fit_def find_fit_loop_step find_fit_loop_null sample_heap_def
        sample_registry_def qualifies_def leftover_def run_defs)
  moreover have "find_fit 88 sample_heap = Inr (0x100001F8, sample_heap)"
    by (simp add: find_fit_def find_fit_loop_step find_fit_loop_null sample_heap_def
        sample_registry_def qualifies_def leftover_def run_defs)
  ultimately show ?thesis using sc1 sc2 by blast
qed


section \<open>First allocation\<close>

text \<open>
  Claim C3 says that a first allocation with a total requirement of at most
  128 KiB marks the new block allocated and splits the unused remainder off
  as one free block, and that a larger one links its mapping into the
  registry. The total is \<^verbatim>\<open>ALIGN(sizeof(struct block_meta)) + ALIGN(size)\<close>,
  computed in \<^verbatim>\<open>size_t\<close> with no look at a wrap-around. For
  \<open>size = 2\<^sup>6\<^sup>4 - 32\<close> on the empty heap the total is 0: the break moves by
  \<open>MMAP_THRESHOLD\<close>, and \<^verbatim>\<open>fragment(new_block, 131072, 0)\<close> writes the header
  of the remainder at \<open>new_block + 0\<close>, over the block itself. The call
  returns \<open>0x10000020\<close>, the payload of a block that is free, of size
  \<open>2\<^sup>6\<^sup>4 - 32\<close>, and its own predecessor and successor; no second block
  exists. For a first allocation above the threshold on a registry that is
  not empty (the second of two calls \<^verbatim>\<open>os_malloc(200000)\<close>), the mapped block
  is appended, but its \<open>prev\<close> is the block itself: \<^verbatim>\<open>initialise_heap\<close> moves
  \<open>heap_end\<close> before it stores \<open>heap_end\<close> in \<open>prev\<close>.
\<close>

theorem first_allocation_wraps:
  "(\<exists>s'. os_malloc (- 32) empty_heap = Inr (0x10000020, s') \<and>
      ALIGN META_SIZE + ALIGN (- 32) = 0 \<and>
      heap_start s' = 0x10000000 \<and> heap_end s' = 0x10000000 \<and> brk s' = 0x10020000 \<and>
      blocks s' 0x10000000 =
        Some \<lparr>size = - 32, status = STATUS_FREE, prev = 0x10000000, next = 0x10000000\<rparr> \<and>
      blocks s' 0x10000020 = None) \<and>
   (\<exists>s1 s2. os_malloc 200000 empty_heap = Inr (0x7F0000000020, s1) \<and> heap_pre s1 = 0 \<and>
      os_malloc 200000 s1 = Inr (0x7F0000031020, s2) \<and>
      blocks s2 0x7F0000031000 =
        Some \<lparr>size = 200000, status = STATUS_MAPPED, prev = 0x7F0000031000, next = 0\<rparr>)"
  by (simp add: run_defs)

text \<open>
  What holds when the total is computed without wrap-around: an allocation
  made while the arena is not ready (\<open>heap_pre\<close> is
  null) with a total requirement, header plus aligned payload, of at most
  \<open>MMAP_THRESHOLD\<close> moves the break by exactly \<open>MMAP_THRESHOLD\<close>, sets
  \<open>heap_pre\<close>, marks the block at the old break allocated, and, when the
  remainder can hold a header and one byte, leaves the remainder as one free
  block after it; with a larger requirement it obtains a mapping for exactly
  the requirement, does not touch the break, and appends the mapped block at
  the registry's end, with a \<open>prev\<close> that is null on an empty registry and
  the block itself otherwise. In both cases the call returns when the operating
  system grants the memory and the registry's end is a block. No stale
  registry end sits at the break.
\<close>

theorem first_allocation:
  assumes pre: "heap_pre s = 0" and nz: "sz \<noteq> 0"
    and hdr: "ALIGN META_SIZE \<le> ALIGN META_SIZE + ALIGN sz"
    and fresh: "heap_start s = 0 \<or> heap_end s \<noteq> brk s"
  shows "(ALIGN META_SIZE + ALIGN sz \<le> MMAP_THRESHOLD \<longrightarrow>
      (\<forall>p s'. os_malloc sz s = Inr (p, s') \<longrightarrow>
     p = brk s + META_SIZE \<and> brk s' = brk s + MMAP_THRESHOLD \<and> heap_pre s' = p \<and> p \<noteq> 0 \<and>
     mmap_next s' = mmap_next s \<and>
     (\<exists>b. blocks s' (brk s) = Some b \<and> status b = STATUS_ALLOC \<and> size b = ALIGN sz \<and>
        (if ALIGN META_SIZE + 1 \<le> MMAP_THRESHOLD - (ALIGN META_SIZE + ALIGN sz)
         then next b = brk s + (ALIGN META_SIZE + ALIGN sz) \<and>
              heap_end s' = brk s + (ALIGN META_SIZE + ALIGN sz) \<and>
              blocks s' (brk s + (ALIGN META_SIZE + ALIGN sz)) =
                Some \<lparr>size = MMAP_THRESHOLD - (ALIGN META_SIZE + ALIGN sz) - ALIGN META_SIZE,
                      status = STATUS_FREE, prev = brk s, next = 0\<rparr>
         else next b = 0 \<and> heap_end s' = brk s))) \<and>
      (unat (brk s) + unat MMAP_THRESHOLD \<le> unat (brk_limit s) \<and>
       (heap_start s = 0 \<or> blocks s (heap_end s) \<noteq> None) \<longrightarrow>
         (\<exists>p s'. os_malloc sz s = Inr (p, s')))) \<and>
    (MMAP_THRESHOLD < ALIGN META_SIZE + ALIGN sz \<longrightarrow>
      (\<forall>p s'. os_malloc sz s = Inr (p, s') \<longrightarrow>
     p = mmap_next s + META_SIZE \<and> brk s' = brk s \<and> heap_pre s' = 0 \<and>
     mmap_next s' = mmap_next s + word_of_nat (page_round (ALIGN META_SIZE + ALIGN sz)) \<and>
     heap_end s' = mmap_next s \<and>
     (\<exists>b. blocks s' (mmap_next s) = Some b \<and> status b = STATUS_MAPPED \<and> size b = ALIGN sz \<and>
          prev b = (if heap_start s = 0 then 0 else mmap_next s)) \<and>
     (if heap_start s = 0 then heap_start s' = mmap_next s
      else heap_start s' = heap_start s \<and>
           (\<exists>e. blocks s' (heap_end s) = Some e \<and> next e = mmap_next s))) \<and>
      (unat (mmap_next s) + page_round (ALIGN META_SIZE + ALIGN sz) < 2 ^ 64 \<and>
       (heap_start s = 0 \<or> blocks s (heap_end s) \<noteq> None) \<longrightarrow>
         (\<exists>p s'. os_malloc sz s = Inr (p, s'))))"
proof -
  note A = first_arena [OF pre nz hdr _ fresh]
  note B = first_arena_returns [OF pre nz hdr]
  note C = first_mapping [OF pre nz]
  note D = first_mapping_returns [OF pre nz]
  show ?thesis
    apply (rule conjI)
     apply (rule impI, rule conjI)
      apply (intro allI impI, erule (1) A)
     apply (rule impI, erule B, blast, blast)
    apply (rule impI, rule conjI)
     apply (intro allI impI, erule (1) C)
    apply (rule impI, erule D, blast, blast)
    done
qed

theorem first_allocation_witness:
  "(\<exists>s'. os_malloc 8 empty_heap = Inr (0x10000020, s') \<and> brk s' = 0x10020000 \<and>
      heap_pre s' = 0x10000020 \<and> heap_end s' = 0x10000028 \<and>
      blocks s' 0x10000028 =
        Some \<lparr>size = 131000, status = STATUS_FREE, prev = 0x10000000, next = 0\<rparr>) \<and>
   (\<exists>s'. os_malloc 200000 empty_heap = Inr (0x7f0000000020, s') \<and> brk s' = 0x10000000 \<and>
      heap_pre s' = 0 \<and> heap_end s' = 0x7f0000000000 \<and> heap_start s' = 0x7f0000000000)"
proof (rule conjI)
  have h: "heap_pre empty_heap = 0" "(8 :: size_t) \<noteq> 0"
    "ALIGN META_SIZE \<le> ALIGN META_SIZE + ALIGN 8"
    "heap_start empty_heap = 0 \<or> heap_end empty_heap \<noteq> brk empty_heap"
    "ALIGN META_SIZE + ALIGN 8 \<le> MMAP_THRESHOLD"
    "unat (brk empty_heap) + unat MMAP_THRESHOLD \<le> unat (brk_limit empty_heap) \<and>
       (heap_start empty_heap = 0 \<or> blocks empty_heap (heap_end empty_heap) \<noteq> None)"
    by (simp_all add: empty_heap_def ALIGN_def ALIGNMENT_def META_SIZE_def MMAP_THRESHOLD_def)
  from first_allocation [OF h(1-4)] h(5,6)
  obtain p s' where r: "os_malloc 8 empty_heap = Inr (p, s')" by blast
  from first_allocation [OF h(1-4)] h(5) r
  have "p = brk empty_heap + META_SIZE \<and> brk s' = brk empty_heap + MMAP_THRESHOLD \<and> heap_pre s' = p \<and>
     (\<exists>b. blocks s' (brk empty_heap) = Some b \<and>
        (if ALIGN META_SIZE + 1 \<le> MMAP_THRESHOLD - (ALIGN META_SIZE + ALIGN 8)
         then next b = brk empty_heap + (ALIGN META_SIZE + ALIGN 8) \<and>
              heap_end s' = brk empty_heap + (ALIGN META_SIZE + ALIGN 8) \<and>
              blocks s' (brk empty_heap + (ALIGN META_SIZE + ALIGN 8)) =
                Some \<lparr>size = MMAP_THRESHOLD - (ALIGN META_SIZE + ALIGN 8) - ALIGN META_SIZE,
                      status = STATUS_FREE, prev = brk empty_heap, next = 0\<rparr>
         else next b = 0 \<and> heap_end s' = brk empty_heap))"
    by blast
  with r show "\<exists>s'. os_malloc 8 empty_heap = Inr (0x10000020, s') \<and> brk s' = 0x10020000 \<and>
      heap_pre s' = 0x10000020 \<and> heap_end s' = 0x10000028 \<and>
      blocks s' 0x10000028 =
        Some \<lparr>size = 131000, status = STATUS_FREE, prev = 0x10000000, next = 0\<rparr>"
    by (auto simp: empty_heap_def ALIGN_def ALIGNMENT_def META_SIZE_def MMAP_THRESHOLD_def)
next
  have h: "heap_pre empty_heap = 0" "(200000 :: size_t) \<noteq> 0"
    "ALIGN META_SIZE \<le> ALIGN META_SIZE + ALIGN 200000"
    "heap_start empty_heap = 0 \<or> heap_end empty_heap \<noteq> brk empty_heap"
    "MMAP_THRESHOLD < ALIGN META_SIZE + ALIGN 200000"
    "unat (mmap_next empty_heap) + page_round (ALIGN META_SIZE + ALIGN 200000) < 2 ^ 64 \<and>
       (heap_start empty_heap = 0 \<or> blocks empty_heap (heap_end empty_heap) \<noteq> None)"
    by (simp_all add: empty_heap_def ALIGN_def ALIGNMENT_def META_SIZE_def MMAP_THRESHOLD_def
        page_round_def)
  from first_allocation [OF h(1-4)] h(5,6)
  obtain p s' where r: "os_malloc 200000 empty_heap = Inr (p, s')" by blast
  from first_allocation [OF h(1-4)] h(5) r
  have "p = mmap_next empty_heap + META_SIZE \<and> brk s' = brk empty_heap \<and> heap_pre s' = 0 \<and>
     heap_end s' = mmap_next empty_heap \<and>
     (if heap_start empty_heap = 0 then heap_start s' = mmap_next empty_heap
      else heap_start s' = heap_start empty_heap \<and>
           (\<exists>e. blocks s' (heap_end empty_heap) = Some e \<and> next e = mmap_next empty_heap))"
    by blast
  with r show "\<exists>s'. os_malloc 200000 empty_heap = Inr (0x7f0000000020, s') \<and> brk s' = 0x10000000 \<and>
      heap_pre s' = 0 \<and> heap_end s' = 0x7f0000000000 \<and> heap_start s' = 0x7f0000000000"
    by (auto simp: empty_heap_def META_SIZE_def)
qed


section \<open>The threshold\<close>





section \<open>Growing by relocation after a merge\<close>




section \<open>Coalescing\<close>





section \<open>The region returned by an allocation\<close>

text \<open>
  Claim C1 says that for every successful allocation of \<open>n > 0\<close> bytes the
  returned payload region is at least \<open>n\<close> bytes long, and the docstring of
  \<^verbatim>\<open>os_malloc\<close> that it allocates \<open>size\<close> bytes. \<^verbatim>\<open>os_malloc\<close> computes
  \<^verbatim>\<open>ALIGN(sizeof(struct block_meta)) + ALIGN(size)\<close> in \<^verbatim>\<open>size_t\<close> and never
  looks for a wrap-around. For \<open>n = 2\<^sup>6\<^sup>4 - 1\<close> on the empty heap,
  \<^verbatim>\<open>ALIGN(n)\<close> is 0 and the requirement is 32: the call succeeds and returns
  \<open>0x10000020\<close>, the payload of a block whose recorded size is 0, less than
  \<open>n\<close>, and the header of the free remainder is written at the returned
  address itself.
\<close>

theorem malloc_wraps:
  "\<exists>s'. os_malloc (- 1) empty_heap = Inr (0x10000020, s') \<and>
      blocks s' (0x10000020 - META_SIZE) =
        Some \<lparr>size = 0, status = STATUS_ALLOC, prev = 0, next = 0x10000020\<rparr> \<and>
      blocks s' 0x10000020 =
        Some \<lparr>size = 131008, status = STATUS_FREE, prev = 0x10000000, next = 0\<rparr> \<and>
      unat (0 :: size_t) < unat (- 1 :: size_t)"
  by (simp add: unsigned_minus_1_eq_mask mask_eq_exp_minus_1 run_defs)

text \<open>
  What holds when the requirement does not wrap around: on a well-formed
  heap with registry \<open>L\<close>, a successful \<^verbatim>\<open>os_malloc(n)\<close> with
  \<open>0 < n \<le> 2\<^sup>6\<^sup>4 - 40\<close> leaves a well-formed heap whose registry \<open>L'\<close> still
  holds every block of \<open>L\<close>; the returned pointer is the payload of a block of
  \<open>L'\<close> that is not free, whose size is at least \<open>n\<close>; the pointer is a
  multiple of 8; and the payload shares no byte with the header or the payload
  of any other block of \<open>L'\<close>, live or free. The empty heap is well-formed
  (\<open>heap_ok_empty\<close>), so the statement covers the heaps built by allocations
  alone; nothing is proved here of the heaps that \<^verbatim>\<open>os_free\<close> and
  \<^verbatim>\<open>os_realloc\<close> leave.
\<close>

theorem malloc_region:
  assumes ok: "heap_ok s L" and n: "n \<noteq> 0" "unat n \<le> 2 ^ 64 - 40"
    and ret: "os_malloc n s = Inr (p, s')"
  shows "\<exists>L'. heap_ok s' L' \<and> set L \<subseteq> set L' \<and> allocated_at s' L' p n"
proof (cases "heap_pre s = 0")
  case True
  show ?thesis
  proof (cases "ALIGN META_SIZE + ALIGN n \<le> MMAP_THRESHOLD")
    case small: True
    from malloc_first [OF ok n True small ret] show ?thesis .
  next
    case False
    then have big: "ALIGN META_SIZE + ALIGN n > MMAP_THRESHOLD" by simp
    from malloc_map [OF ok n big _ ret] True show ?thesis by simp
  qed
next
  case False
  note af = align_facts [OF n]
  have rq: "32 \<le> unat (ALIGN META_SIZE + ALIGN n)" "8 dvd unat (ALIGN META_SIZE + ALIGN n)"
    using af by simp_all
  from ret n(1) False obtain w s1 where ff: "find_fit (ALIGN META_SIZE + ALIGN n) s = Inr (w, s1)"
    by (cases "find_fit (ALIGN META_SIZE + ALIGN n) s")
      (auto simp: os_malloc_def Let_def bnd_def)
  show ?thesis
  proof (cases "w = 0")
    case wnz: False
    from malloc_fit [OF ok n False ff wnz ret] show ?thesis .
  next
    case w0: True
    from find_fit_ok [OF ok rq ff] w0 have s1: "s1 = s"
      using heap_ok_mem_end(2) [OF _ _] by auto
    show ?thesis
    proof (cases "ALIGN META_SIZE + ALIGN n > MMAP_THRESHOLD")
      case big: True
      from malloc_map [OF ok n big _ ret] ff w0 s1 show ?thesis by simp
    next
      case small: False
      from ret n(1) False ff w0 s1 small obtain x s2 where gl: "get_last s = Inr (x, s2)"
        by (cases "get_last s") (auto simp: os_malloc_def Let_def bnd_def)
      from get_last_spec [OF ok False gl] have x: "x \<in> set L" by blast
      from heap_ok_mem_end(3) [OF ok x] obtain X where X: "blocks s x = Some X" by blast
      show ?thesis
      proof (cases "status X = STATUS_FREE")
        case True
        from malloc_expand [OF ok n False ff [unfolded w0] small gl X True ret] show ?thesis .
      next
        case nf: False
        from malloc_extend [OF ok n False ff [unfolded w0] small gl X nf ret] show ?thesis .
      qed
    qed
  qed
qed

theorem malloc_region_witness:
  "\<exists>s1 s2 L2. os_malloc 100 empty_heap = Inr (0x10000020, s1) \<and>
     os_malloc 50 s1 = Inr (0x100000A8, s2) \<and>
     heap_ok s2 L2 \<and> 0x10000000 \<in> set L2 \<and> allocated_at s2 L2 0x100000A8 50 \<and>
     bend s2 0x10000000 \<le> unat (0x100000A8 :: addr)"
proof -
  obtain s1 s2 where r: "os_malloc 100 empty_heap = Inr (0x10000020, s1)"
    "os_malloc 50 s1 = Inr (0x100000A8, s2)"
    by (simp add: find_fit_def find_fit_loop_step find_fit_loop_null
        qualifies_def leftover_def run_defs)
  have c: "(100 :: size_t) \<noteq> 0" "unat (100 :: size_t) \<le> 2 ^ 64 - 40"
    "(50 :: size_t) \<noteq> 0" "unat (50 :: size_t) \<le> 2 ^ 64 - 40"
    by simp_all
  from malloc_region [OF heap_ok_empty c(1,2) r(1)] obtain L1 where
    l1: "heap_ok s1 L1" "allocated_at s1 L1 0x10000020 100" by blast
  from l1(2) have m1: "0x10000000 \<in> set L1" by (simp add: allocated_at_def META_SIZE_def)
  from malloc_region [OF l1(1) c(3,4) r(2)] obtain L2 where
    l2: "heap_ok s2 L2" "set L1 \<subseteq> set L2" "allocated_at s2 L2 0x100000A8 50" by blast
  from m1 l2(2) have m2: "0x10000000 \<in> set L2" by blast
  from l2(3) m2 have "bend s2 0x10000000 \<le> unat (0x100000A8 :: addr) \<or>
      unat (0x100000A8 :: addr) + bsize s2 (0x100000A8 - META_SIZE) \<le> unat (0x10000000 :: addr)"
    unfolding allocated_at_def by (auto simp: META_SIZE_def)
  then have "bend s2 0x10000000 \<le> unat (0x100000A8 :: addr)" by simp
  with r l2 m2 show ?thesis by blast
qed

end
